theory Spec2Isabelle
  imports Complex_Main "HOL-Library.Word" "HOL-Library.Signed_Division"
begin

section \<open>GoSlice, package clip: layer partitioning, wall insets and linear fill\<close>

text \<open>
  A shallow embedding of \<^verbatim>\<open>clip/clipper.go\<close>. The polygon engine
  (\<^verbatim>\<open>github.com/ctessum/go.clipper\<close>) and the packages \<^verbatim>\<open>GoSlice/data\<close> and
  \<^verbatim>\<open>GoSlice/util\<close> are used by the file but are not part of it: whatever they compute
  is a field of the record \<open>extern\<close>, and every theorem holds for every value of it.
\<close>

subsection \<open>Data model\<close>

text \<open>
  Modelled from the spec: \<^verbatim>\<open>util.Micrometer\<close> and \<^verbatim>\<open>util.MicroPoint\<close> are declared in
  package util. A point is "a pair of integer coordinates" in micrometers; the integer is
  Go's \<^verbatim>\<open>int64\<close>, the width of \<^verbatim>\<open>clipper.CInt\<close> to and from which every coordinate is
  converted. Arithmetic on it wraps around (two's complement), comparison is signed
  (\<open>\<le>s\<close>, \<open><s\<close>). Go's \<^verbatim>\<open>int\<close> is taken to be 64 bits wide as well.
\<close>

type_synonym int64 = "64 word"
type_synonym Micrometer = int64
type_synonym CInt = int64

datatype MicroPoint = NewMicroPoint (X: Micrometer) (Y: Micrometer)

datatype IntPoint = IntPoint (CX: CInt) (CY: CInt)

type_synonym Path = "MicroPoint list"
type_synonym Paths = "Path list"
type_synonym CPath = "IntPoint list"
type_synonym CPaths = "CPath list"

text \<open>\<^verbatim>\<open>clipper.PolyNode\<close>: a contour and the nodes nested directly inside it.\<close>

datatype PolyNode = PolyNode (Contour: CPath) (Childs: "PolyNode list")

record layerPart =
  outline :: Path
  holes :: Paths

text \<open>
  Run-time panics of Go that the code can reach by its syntax: an index out of range.
\<close>

datatype error = IndexOutOfRange

text \<open>
  What the file calls and does not define. A value of type \<^verbatim>\<open>float64\<close> is the real number
  it denotes.
  \<^item> \<open>offsetExecute ps d\<close>: a \<^verbatim>\<open>ClipperOffset\<close> after \<^verbatim>\<open>Clear\<close>, with the closed
    polygons \<open>ps\<close> added (\<^verbatim>\<open>JtSquare\<close>, \<^verbatim>\<open>EtClosedPolygon\<close>), \<^verbatim>\<open>MiterLimit = 2\<close>, and
    \<^verbatim>\<open>Execute(d)\<close>.
  \<^item> \<open>unionExecute2 ps\<close>: a fresh \<^verbatim>\<open>Clipper\<close> with the subjects \<open>ps\<close> and
    \<^verbatim>\<open>Execute2(CtUnion, PftEvenOdd, PftEvenOdd)\<close>; \<open>None\<close> when \<^verbatim>\<open>ok\<close> is false, else
    the root of the tree.
  \<^item> \<open>intersectExecute2 clip subj\<close>: a \<^verbatim>\<open>Clipper\<close> after \<^verbatim>\<open>Clear\<close>, with the closed
    clip polygons \<open>clip\<close>, the open subject lines \<open>subj\<close> and
    \<^verbatim>\<open>Execute2(CtIntersection, PftEvenOdd, PftEvenOdd)\<close>.
  \<^item> \<open>fillDelta lineWidth overlapPercentage\<close>: the value of
    \<^verbatim>\<open>float64(-(float32(lineWidth) * (100.0 - float32(overlapPercentage)) / 100.0))\<close>.
  \<^item> \<open>Simplify\<close>, \<open>Size\<close> of package data; \<open>Sub\<close>, \<open>ShorterThan\<close> of package util.
\<close>

record extern =
  offsetExecute :: "CPaths \<Rightarrow> real \<Rightarrow> CPaths"
  unionExecute2 :: "CPaths \<Rightarrow> PolyNode option"
  intersectExecute2 :: "CPaths \<Rightarrow> CPaths \<Rightarrow> PolyNode option"
  fillDelta :: "Micrometer \<Rightarrow> int64 \<Rightarrow> real"
  Simplify :: "Path \<Rightarrow> Micrometer \<Rightarrow> Micrometer \<Rightarrow> Path"
  Size :: "Paths \<Rightarrow> MicroPoint \<times> MicroPoint"
  Sub :: "MicroPoint \<Rightarrow> MicroPoint \<Rightarrow> MicroPoint"
  ShorterThan :: "MicroPoint \<Rightarrow> Micrometer \<Rightarrow> bool"

subsection \<open>Conversions\<close>

definition clipperPoint :: "MicroPoint \<Rightarrow> IntPoint" where
  "clipperPoint p = IntPoint (X p) (Y p)"

definition clipperPaths :: "Paths \<Rightarrow> CPaths" where
  "clipperPaths p = map (\<lambda>path. map clipperPoint path) p"

definition microPoint :: "IntPoint \<Rightarrow> MicroPoint" where
  "microPoint p = NewMicroPoint (CX p) (CY p)"

definition microPath :: "CPath \<Rightarrow> Path" where
  "microPath p = map microPoint p"

definition microPaths :: "extern \<Rightarrow> CPaths \<Rightarrow> bool \<Rightarrow> Paths" where
  "microPaths e p simplify =
     map (\<lambda>path. if simplify then Simplify e (microPath path) (- 1) (- 1) else microPath path) p"

text \<open>Go's bounds-checked \<^verbatim>\<open>xs[i]\<close>.\<close>

definition index :: "'a list \<Rightarrow> nat \<Rightarrow> error + 'a" where
  "index xs i = (if i < length xs then Inr (xs ! i) else Inl IndexOutOfRange)"

text \<open>Go's \<^verbatim>\<open>a / b\<close> on \<^verbatim>\<open>int64\<close> for \<open>b \<noteq> 0\<close>: the quotient truncated towards zero.\<close>

definition quo :: "int64 \<Rightarrow> int64 \<Rightarrow> int64" where
  "quo a b = word_of_int (sint a sdiv sint b)"

subsection \<open>Inset\<close>

text \<open>
  \<^verbatim>\<open>for len(insets[wallNr]) <= insetNr { insets[wallNr] = append(insets[wallNr], []data.Path{}) }\<close>
  on the wall's list of levels.
\<close>

function padWall :: "Paths list \<Rightarrow> nat \<Rightarrow> Paths list" where
  "padWall levels insetNr =
     (if length levels \<le> insetNr then padWall (levels @ [[]]) insetNr else levels)"
  by pat_completeness auto
termination
  by (relation "measure (\<lambda>(levels, insetNr). Suc insetNr - length levels)") auto

text \<open>
  One pass through the body of \<^verbatim>\<open>for wallNr, wall := range microPaths(allNewInsets, true)\<close>:
  a new wall is appended when \<open>wallNr\<close> has none yet, the wall's levels are padded
  up to \<open>insetNr\<close>, and \<open>wall\<close> is appended to the paths of that level.
\<close>

definition wallStep :: "Paths list list \<Rightarrow> nat \<Rightarrow> nat \<Rightarrow> Path \<Rightarrow> error + Paths list list" where
  "wallStep insets insetNr wallNr wall =
     (let insets1 = (if length insets \<le> wallNr then insets @ [[]] else insets) in
      if length insets1 \<le> wallNr then Inl IndexOutOfRange
      else
        let insets2 = insets1[wallNr := padWall (insets1 ! wallNr) insetNr] in
        if length (insets2 ! wallNr) \<le> insetNr then Inl IndexOutOfRange
        else Inr (insets2[wallNr := (insets2 ! wallNr)[insetNr := (insets2 ! wallNr ! insetNr) @ [wall]]]))"

text \<open>The range loop from \<open>wallNr\<close> on, over the walls not yet visited.\<close>

fun wallLoop :: "Paths list list \<Rightarrow> nat \<Rightarrow> nat \<Rightarrow> Paths \<Rightarrow> error + Paths list list" where
  "wallLoop insets insetNr wallNr [] = Inr insets"
| "wallLoop insets insetNr wallNr (wall # walls) =
     (case wallStep insets insetNr wallNr wall of
        Inl err \<Rightarrow> Inl err
      | Inr insets' \<Rightarrow> wallLoop insets' insetNr (Suc wallNr) walls)"

text \<open>
  The two \<^verbatim>\<open>float64\<close> operations of \<^verbatim>\<open>Inset\<close> act on integers. A \<^verbatim>\<open>float64\<close> (IEEE 754
  binary64) has 53 significant bits and rounds to the nearest value, a tie going to the even
  significand. For a magnitude \<open>m\<close>, \<open>dropBits m\<close> is the number of low bits that do not fit,
  and \<open>roundEven m\<close> the magnitude rounded to 53 significant bits.
\<close>

function dropBits :: "nat \<Rightarrow> nat" where
  "dropBits m = (if m < 2 ^ 53 then 0 else Suc (dropBits (m div 2)))"
  by pat_completeness auto
termination
  by (relation "measure (\<lambda>m. m)") auto

declare dropBits.simps [simp del]

definition roundEven :: "nat \<Rightarrow> nat" where
  "roundEven m =
     (let e = dropBits m; q = m div 2 ^ e; r = m mod 2 ^ e
      in 2 ^ e * (if 2 ^ e < 2 * r \<or> (2 * r = 2 ^ e \<and> odd q) then q + 1 else q))"

definition rnd53 :: "int \<Rightarrow> int" where
  "rnd53 k = sgn k * int (roundEven (nat \<bar>k\<bar>))"

text \<open>
  \<^verbatim>\<open>float64(i)\<close> of an \<^verbatim>\<open>int64\<close>: the value is an integer. \<^verbatim>\<open>a - b\<close> on two \<^verbatim>\<open>float64\<close>
  that are integers: the exact difference, an integer below \<open>2 ^ 65\<close> in magnitude,
  rounded.
\<close>

definition float64 :: "int64 \<Rightarrow> int" where
  "float64 i = rnd53 (sint i)"

definition float64Sub :: "int \<Rightarrow> int \<Rightarrow> int" where
  "float64Sub a b = rnd53 (a - b)"

text \<open>
  The distance handed to \<^verbatim>\<open>Execute\<close> at level \<open>insetNr\<close>:
  \<^verbatim>\<open>float64(-int(offset)*insetNr) - float64(offset/2)\<close>. The unary minus binds tighter
  than the product; both integer operands are computed in \<^verbatim>\<open>int64\<close>, where the product
  wraps around. \<open>insetNr\<close> is below \<open>insetCount\<close>, an \<^verbatim>\<open>int\<close>, so \<open>of_nat insetNr\<close>
  is its value as a machine integer.
\<close>

definition insetDelta :: "Micrometer \<Rightarrow> nat \<Rightarrow> real" where
  "insetDelta offset insetNr =
     real_of_int (float64Sub (float64 ((- offset) * of_nat insetNr)) (float64 (quo offset 2)))"

text \<open>
  The polygons handed to the engine by the two calls of \<^verbatim>\<open>AddPaths\<close>: the outline,
  then the holes.
\<close>

definition addedPaths :: "layerPart \<Rightarrow> CPaths" where
  "addedPaths part = clipperPaths [outline part] @ clipperPaths (holes part)"

text \<open>
  The loop \<^verbatim>\<open>for insetNr := 0; insetNr < insetCount; insetNr++\<close> of \<^verbatim>\<open>Inset\<close>. The
  counter never exceeds \<open>insetCount\<close>, so it is a natural number here. Besides
  \<open>insets\<close> the state carries \<open>calls\<close>, the log of the calls of the engine's
  \<^verbatim>\<open>Execute\<close> so far: the polygons added and the distance.
\<close>

function insetLoop ::
  "extern \<Rightarrow> layerPart \<Rightarrow> Micrometer \<Rightarrow> int \<Rightarrow> nat \<Rightarrow> Paths list list \<Rightarrow> (CPaths \<times> real) list
     \<Rightarrow> error + (Paths list list \<times> (CPaths \<times> real) list)" where
  "insetLoop e part offset insetCount insetNr insets calls =
     (if int insetNr < insetCount then
        let delta = insetDelta offset insetNr;
            allNewInsets = offsetExecute e (addedPaths part) delta;
            calls' = calls @ [(addedPaths part, delta)]
        in
          if length allNewInsets \<le> 0 then Inr (insets, calls')
          else
            (case wallLoop insets insetNr 0 (microPaths e allNewInsets True) of
               Inl err \<Rightarrow> Inl err
             | Inr insets' \<Rightarrow> insetLoop e part offset insetCount (Suc insetNr) insets' calls')
      else Inr (insets, calls))"
  by pat_completeness auto
termination
  by (relation "measure (\<lambda>(e, part, offset, insetCount, insetNr, insets, calls).
        nat (insetCount - int insetNr))") auto

declare padWall.simps [simp del] insetLoop.simps [simp del]

definition Inset :: "extern \<Rightarrow> layerPart \<Rightarrow> Micrometer \<Rightarrow> int \<Rightarrow> error + Paths list list" where
  "Inset e part offset insetCount = map_sum id fst (insetLoop e part offset insetCount 0 [] [])"

text \<open>The engine calls that \<^verbatim>\<open>Inset\<close> makes, in order.\<close>

definition InsetCalls :: "extern \<Rightarrow> layerPart \<Rightarrow> Micrometer \<Rightarrow> int \<Rightarrow> error + (CPaths \<times> real) list" where
  "InsetCalls e part offset insetCount = map_sum id snd (insetLoop e part offset insetCount 0 [] [])"

definition InsetLayer ::
  "extern \<Rightarrow> layerPart list \<Rightarrow> Micrometer \<Rightarrow> int \<Rightarrow> (error + Paths list list) list" where
  "InsetLayer e layer offset insetCount = map (\<lambda>part. Inset e part offset insetCount) layer"

subsection \<open>The result of Inset in closed form\<close>

text \<open>
  What one pass of the wall loop does to the levels \<open>old\<close> of a wall that has at most
  \<open>insetNr\<close> of them: empty paths up to \<open>insetNr\<close>, then the new wall.
\<close>

definition extendWall :: "Paths list \<Rightarrow> nat \<Rightarrow> Path \<Rightarrow> Paths list" where
  "extendWall old insetNr wall = old @ replicate (insetNr - length old) [] @ [[wall]]"

text \<open>
  \<open>walls l\<close> are the walls of level \<open>l\<close>. After the levels below \<open>n\<close>, wall \<open>w\<close>
  has \<open>wallLen walls n w\<close> levels (one more than the last level that has a wall
  \<open>w\<close>), there are \<open>wallCount walls n\<close> walls, and level \<open>l\<close> of wall \<open>w\<close> holds
  \<open>levelEntry walls w l\<close>.
\<close>

fun wallLen :: "(nat \<Rightarrow> Paths) \<Rightarrow> nat \<Rightarrow> nat \<Rightarrow> nat" where
  "wallLen walls 0 w = 0"
| "wallLen walls (Suc n) w = (if w < length (walls n) then Suc n else wallLen walls n w)"

fun wallCount :: "(nat \<Rightarrow> Paths) \<Rightarrow> nat \<Rightarrow> nat" where
  "wallCount walls 0 = 0"
| "wallCount walls (Suc n) = max (wallCount walls n) (length (walls n))"

definition levelEntry :: "(nat \<Rightarrow> Paths) \<Rightarrow> nat \<Rightarrow> nat \<Rightarrow> Paths" where
  "levelEntry walls w l = (if w < length (walls l) then [walls l ! w] else [])"

definition insetsAfter :: "(nat \<Rightarrow> Paths) \<Rightarrow> nat \<Rightarrow> Paths list list" where
  "insetsAfter walls n =
     map (\<lambda>w. map (levelEntry walls w) [0..<wallLen walls n w]) [0..<wallCount walls n]"

definition levelWalls :: "extern \<Rightarrow> layerPart \<Rightarrow> Micrometer \<Rightarrow> nat \<Rightarrow> Paths" where
  "levelWalls e part offset l =
     microPaths e (offsetExecute e (addedPaths part)
       (insetDelta offset l)) True"

definition levelCall :: "extern \<Rightarrow> layerPart \<Rightarrow> Micrometer \<Rightarrow> nat \<Rightarrow> CPaths \<times> real" where
  "levelCall e part offset l =
     (addedPaths part, insetDelta offset l)"

subsection \<open>GenerateLayerParts\<close>

text \<open>
  The loop \<^verbatim>\<open>for j, layerPoint := range layerPolygon\<close>, from index \<open>j\<close> on, over the
  points not yet visited; the state is \<open>prev\<close> and \<open>path\<close>.
\<close>

fun convertPoints :: "extern \<Rightarrow> Path \<Rightarrow> nat \<Rightarrow> Path \<Rightarrow> nat \<Rightarrow> CPath \<Rightarrow> error + CPath" where
  "convertPoints e layerPolygon j [] prev path = Inr path"
| "convertPoints e layerPolygon j (layerPoint # rest) prev path =
     (if j = 0 then
        (case index layerPolygon 0 of
           Inl err \<Rightarrow> Inl err
         | Inr p0 \<Rightarrow> convertPoints e layerPolygon (Suc j) rest prev (path @ [clipperPoint p0]))
      else
        (case index layerPolygon prev of
           Inl err \<Rightarrow> Inl err
         | Inr q \<Rightarrow>
             if ShorterThan e (Sub e layerPoint q) 100
             then convertPoints e layerPolygon (Suc j) rest prev path
             else convertPoints e layerPolygon (Suc j) rest j (path @ [clipperPoint layerPoint])))"

text \<open>The loop \<^verbatim>\<open>for _, layerPolygon := range l.Polygons()\<close>.\<close>

fun convertPolygons :: "extern \<Rightarrow> Paths \<Rightarrow> CPaths \<Rightarrow> error + CPaths" where
  "convertPolygons e [] polyList = Inr polyList"
| "convertPolygons e (layerPolygon # rest) polyList =
     (case convertPoints e layerPolygon 0 layerPolygon 0 [] of
        Inl err \<Rightarrow> Inl err
      | Inr path \<Rightarrow> convertPolygons e rest (polyList @ [path]))"

text \<open>
  \<^verbatim>\<open>polysForNextRound\<close> is a slice that the code compares with \<^verbatim>\<open>nil\<close>: \<open>None\<close> is
  the nil slice, \<open>Some xs\<close> a slice that is not nil (it may be empty). \<^verbatim>\<open>append\<close> to
  either gives a slice that is not nil.
\<close>

definition appendNode :: "PolyNode list option \<Rightarrow> PolyNode \<Rightarrow> PolyNode list option" where
  "appendNode s c = (case s of None \<Rightarrow> Some [c] | Some xs \<Rightarrow> Some (xs @ [c]))"

text \<open>\<^verbatim>\<open>for _, c := range nodes { polysForNextRound = append(polysForNextRound, c) }\<close>\<close>

fun appendNodes :: "PolyNode list \<Rightarrow> PolyNode list option \<Rightarrow> PolyNode list option" where
  "appendNodes [] polysForNextRound = polysForNextRound"
| "appendNodes (c # cs) polysForNextRound = appendNodes cs (appendNode polysForNextRound c)"

text \<open>\<^verbatim>\<open>for _, child := range p.Childs()\<close>: the holes of the part and the grandchildren.\<close>

fun childLoop ::
  "PolyNode list \<Rightarrow> layerPart \<Rightarrow> PolyNode list option \<Rightarrow> layerPart \<times> PolyNode list option" where
  "childLoop [] part polysForNextRound = (part, polysForNextRound)"
| "childLoop (child # cs) part polysForNextRound =
     childLoop cs (part\<lparr>holes := holes part @ [microPath (Contour child)]\<rparr>)
       (appendNodes (Childs child) polysForNextRound)"

text \<open>\<^verbatim>\<open>for _, p := range thisRound\<close>\<close>

fun roundLoop ::
  "PolyNode list \<Rightarrow> layerPart list \<Rightarrow> PolyNode list option \<Rightarrow> layerPart list \<times> PolyNode list option" where
  "roundLoop [] parts polysForNextRound = (parts, polysForNextRound)"
| "roundLoop (p # ps) parts polysForNextRound =
     (case childLoop (Childs p) \<lparr>outline = microPath (Contour p), holes = []\<rparr> polysForNextRound of
        (part, polysForNextRound') \<Rightarrow> roundLoop ps (parts @ [part]) polysForNextRound')"

text \<open>The number of nodes of a tree, and the weight of a round: the measure of the outer loop.\<close>

fun nodeCount :: "PolyNode \<Rightarrow> nat" where
  "nodeCount (PolyNode c cs) = Suc (sum_list (map nodeCount cs))"

definition nodesCount :: "PolyNode list \<Rightarrow> nat" where
  "nodesCount ns = sum_list (map nodeCount ns)"

definition grandChilds :: "PolyNode \<Rightarrow> PolyNode list" where
  "grandChilds p = concat (map Childs (Childs p))"

definition sliceNodes :: "PolyNode list option \<Rightarrow> PolyNode list" where
  "sliceNodes s = (case s of None \<Rightarrow> [] | Some xs \<Rightarrow> xs)"

definition roundWeight :: "PolyNode list option \<Rightarrow> nat" where
  "roundWeight s = (case s of None \<Rightarrow> 0 | Some xs \<Rightarrow> Suc (nodesCount xs))"

lemma sliceNodes_appendNodes: "sliceNodes (appendNodes cs s) = sliceNodes s @ cs"
  by (induction cs arbitrary: s) (auto simp: sliceNodes_def appendNode_def split: option.splits)

lemma appendNodes_None_iff: "appendNodes cs s = None \<longleftrightarrow> s = None \<and> cs = []"
  by (induction cs arbitrary: s) (auto simp: appendNode_def split: option.splits)

lemma childLoop_next:
  "sliceNodes (snd (childLoop cs part s)) = sliceNodes s @ concat (map Childs cs)"
  by (induction cs arbitrary: part s) (auto simp: sliceNodes_appendNodes)

lemma childLoop_None_iff:
  "snd (childLoop cs part s) = None \<longleftrightarrow> s = None \<and> concat (map Childs cs) = []"
  by (induction cs arbitrary: part s) (auto simp: appendNodes_None_iff)

lemma roundLoop_next:
  "sliceNodes (snd (roundLoop ps parts s)) = sliceNodes s @ concat (map grandChilds ps)"
proof (induction ps arbitrary: parts s)
  case Nil
  then show ?case by simp
next
  case (Cons p ps)
  obtain part s' where c: "childLoop (Childs p) \<lparr>outline = microPath (Contour p), holes = []\<rparr> s = (part, s')"
    by (cases "childLoop (Childs p) \<lparr>outline = microPath (Contour p), holes = []\<rparr> s")
  have "sliceNodes s' = sliceNodes s @ grandChilds p"
    using childLoop_next [of "Childs p" "\<lparr>outline = microPath (Contour p), holes = []\<rparr>" s] c
    by (simp add: grandChilds_def)
  then show ?case
    using Cons.IH [of "parts @ [part]" s'] c by simp
qed

lemma roundLoop_None_iff:
  "snd (roundLoop ps parts s) = None \<longleftrightarrow> s = None \<and> concat (map grandChilds ps) = []"
proof (induction ps arbitrary: parts s)
  case Nil
  then show ?case by simp
next
  case (Cons p ps)
  obtain part s' where c: "childLoop (Childs p) \<lparr>outline = microPath (Contour p), holes = []\<rparr> s = (part, s')"
    by (cases "childLoop (Childs p) \<lparr>outline = microPath (Contour p), holes = []\<rparr> s")
  have "s' = None \<longleftrightarrow> s = None \<and> grandChilds p = []"
    using childLoop_None_iff [of "Childs p" "\<lparr>outline = microPath (Contour p), holes = []\<rparr>" s] c
    by (simp add: grandChilds_def)
  then show ?case
    using Cons.IH [of "parts @ [part]" s'] c by auto
qed

lemma nodesCount_append: "nodesCount (xs @ ys) = nodesCount xs + nodesCount ys"
  by (simp add: nodesCount_def)

lemma nodesCount_concat: "nodesCount (concat xss) = sum_list (map nodesCount xss)"
  by (induction xss) (simp_all add: nodesCount_def)

lemma nodeCount_Childs: "Suc (nodesCount (Childs p)) = nodeCount p"
  by (cases p) (simp add: nodesCount_def)

lemma nodesCount_grandChilds: "nodesCount (grandChilds p) < nodeCount p"
proof -
  have "nodesCount (concat (map Childs cs)) \<le> nodesCount cs" for cs
  proof (induction cs)
    case Nil
    then show ?case by (simp add: nodesCount_def)
  next
    case (Cons c cs)
    have "nodesCount (Childs c) \<le> nodeCount c"
      using nodeCount_Childs [of c] by simp
    then show ?case
      using Cons by (simp add: nodesCount_def)
  qed
  then have "nodesCount (grandChilds p) \<le> nodesCount (Childs p)"
    by (simp add: grandChilds_def)
  then show ?thesis
    using nodeCount_Childs [of p] by simp
qed

lemma nodesCount_grandChilds_list:
  "ps \<noteq> [] \<Longrightarrow> nodesCount (concat (map grandChilds ps)) < nodesCount ps"
proof (induction ps)
  case Nil
  then show ?case by simp
next
  case (Cons p ps)
  show ?case
  proof (cases "ps = []")
    case True
    then show ?thesis
      using nodesCount_grandChilds [of p] by (simp add: nodesCount_def)
  next
    case False
    then show ?thesis
      using Cons.IH nodesCount_grandChilds [of p] by (simp add: nodesCount_def)
  qed
qed

lemma roundLoop_weight:
  assumes "roundLoop thisRound parts None = (parts', nxt)"
  shows "roundWeight nxt < roundWeight (Some thisRound)"
proof (cases "thisRound = []")
  case True
  then show ?thesis
    using assms by (simp add: roundWeight_def)
next
  case False
  have "sliceNodes nxt = concat (map grandChilds thisRound)"
    using roundLoop_next [of thisRound parts None] assms by (simp add: sliceNodes_def)
  then have "roundWeight nxt \<le> Suc (nodesCount (concat (map grandChilds thisRound)))"
    by (cases nxt) (simp_all add: roundWeight_def sliceNodes_def)
  then show ?thesis
    using nodesCount_grandChilds_list [OF False] by (simp add: roundWeight_def)
qed

text \<open>
  The outer \<^verbatim>\<open>for { if polysForNextRound == nil { break } ... }\<close>. Every round hands the
  grandchildren of its nodes to the next one, so the weight of the round decreases.
\<close>

function rounds :: "PolyNode list option \<Rightarrow> layerPart list \<Rightarrow> layerPart list" where
  "rounds polysForNextRound parts =
     (case polysForNextRound of
        None \<Rightarrow> parts
      | Some thisRound \<Rightarrow>
          (case roundLoop thisRound parts None of
             (parts', nxt) \<Rightarrow> rounds nxt parts'))"
  by pat_completeness auto
termination
  by (relation "measure (\<lambda>(polysForNextRound, parts). roundWeight polysForNextRound)")
    (auto dest: roundLoop_weight [OF sym])

declare rounds.simps [simp del]

text \<open>
  \<^verbatim>\<open>GenerateLayerParts\<close>: the layer is its list of polygons; the result is the list of
  parts and \<^verbatim>\<open>ok\<close>.
\<close>

definition GenerateLayerParts :: "extern \<Rightarrow> Paths \<Rightarrow> error + (layerPart list \<times> bool)" where
  "GenerateLayerParts e l =
     (case convertPolygons e l [] of
        Inl err \<Rightarrow> Inl err
      | Inr polyList \<Rightarrow>
          (case unionExecute2 e polyList of
             None \<Rightarrow> Inr ([], False)
           | Some resultPolys \<Rightarrow>
               Inr (rounds (appendNodes (Childs resultPolys) (Some [])) [], True)))"

subsection \<open>The preprocessing and the tree walk in the words of the specification\<close>

text \<open>
  The points that the specification retains: the first point of a path, and then every
  point that is not too near to the most recently retained one. \<open>tooNear p kept\<close> says
  that \<open>p\<close> lies closer than the minimum distance to the retained point \<open>kept\<close>.
\<close>

fun retainFrom :: "(MicroPoint \<Rightarrow> MicroPoint \<Rightarrow> bool) \<Rightarrow> MicroPoint \<Rightarrow> Path \<Rightarrow> Path" where
  "retainFrom tooNear kept [] = []"
| "retainFrom tooNear kept (p # ps) =
     (if tooNear p kept then retainFrom tooNear kept ps else p # retainFrom tooNear p ps)"

fun retainedPoints :: "(MicroPoint \<Rightarrow> MicroPoint \<Rightarrow> bool) \<Rightarrow> Path \<Rightarrow> Path" where
  "retainedPoints tooNear [] = []"
| "retainedPoints tooNear (p # ps) = p # retainFrom tooNear p ps"

text \<open>The test of the code: \<^verbatim>\<open>layerPoint.Sub(kept).ShorterThan(100)\<close>.\<close>

definition tooNear100 :: "extern \<Rightarrow> MicroPoint \<Rightarrow> MicroPoint \<Rightarrow> bool" where
  "tooNear100 e p kept = ShorterThan e (Sub e p kept) 100"

text \<open>
  The parts that the specification makes of a round of candidate outlines: one part per
  candidate, with the contours of its direct children as holes; the grandchildren of the
  candidates are the candidates of the next round, until no candidates remain.
\<close>

definition partOf :: "PolyNode \<Rightarrow> layerPart" where
  "partOf p = \<lparr>outline = microPath (Contour p),
               holes = map (\<lambda>child. microPath (Contour child)) (Childs p)\<rparr>"

function specRounds :: "PolyNode list \<Rightarrow> layerPart list" where
  "specRounds candidates =
     (if candidates = [] then []
      else map partOf candidates @ specRounds (concat (map grandChilds candidates)))"
  by pat_completeness auto
termination
  by (relation "measure nodesCount") (auto simp: nodesCount_grandChilds_list)

declare specRounds.simps [simp del]

subsection \<open>Fill\<close>

text \<open>
  The line appended at \<open>x\<close>. \<open>numLine\<close> counts the lines appended so far: it is the
  length of the slice \<^verbatim>\<open>lines\<close>, which Go keeps within \<^verbatim>\<open>int\<close>, so it is a natural
  number here.
\<close>

definition scanLine :: "MicroPoint \<Rightarrow> MicroPoint \<Rightarrow> Micrometer \<Rightarrow> nat \<Rightarrow> CPath" where
  "scanLine minScanlines maxScanlines x numLine =
     (if numLine mod 2 = 1
      then [IntPoint x (Y maxScanlines), IntPoint x (Y minScanlines)]
      else [IntPoint x (Y minScanlines), IntPoint x (Y maxScanlines)])"

text \<open>
  \<^verbatim>\<open>for x := minScanlines.X(); x <= maxScanlines.X(); x += lineWidth\<close>: the comparison
  is signed and the addition wraps around. The loop need not end: \<open>None\<close> is the run that
  never leaves it.
\<close>

partial_function (option) scanLoop ::
  "MicroPoint \<Rightarrow> MicroPoint \<Rightarrow> Micrometer \<Rightarrow> Micrometer \<Rightarrow> nat \<Rightarrow> CPaths \<Rightarrow> CPaths option" where
  "scanLoop minScanlines maxScanlines lineWidth x numLine lines =
     (if x \<le>s X maxScanlines
      then scanLoop minScanlines maxScanlines lineWidth (x + lineWidth) (Suc numLine)
             (lines @ [scanLine minScanlines maxScanlines x numLine])
      else Some lines)"

text \<open>
  \<^verbatim>\<open>for _, path := range polys\<close>: the contour is offset, the lines are clipped to it and
  the contours of the children of the result are appended; a failure of the intersection
  returns \<^verbatim>\<open>nil\<close> from \<^verbatim>\<open>getLinearFill\<close>.
\<close>

fun clipLoop :: "extern \<Rightarrow> CPaths \<Rightarrow> real \<Rightarrow> CPaths \<Rightarrow> CPaths \<Rightarrow> CPaths" where
  "clipLoop e lines delta [] result = result"
| "clipLoop e lines delta (path # polys) result =
     (case intersectExecute2 e (offsetExecute e [path] delta) lines of
        None \<Rightarrow> []
      | Some tree \<Rightarrow> clipLoop e lines delta polys (result @ map Contour (Childs tree)))"

definition getLinearFill ::
  "extern \<Rightarrow> CPaths \<Rightarrow> MicroPoint \<Rightarrow> MicroPoint \<Rightarrow> Micrometer \<Rightarrow> int64 \<Rightarrow> CPaths option" where
  "getLinearFill e polys minScanlines maxScanlines lineWidth overlapPercentage =
     (case scanLoop minScanlines maxScanlines lineWidth (X minScanlines) 0 [] of
        None \<Rightarrow> None
      | Some lines \<Rightarrow> Some (clipLoop e lines (fillDelta e lineWidth overlapPercentage) polys []))"

definition Fill :: "extern \<Rightarrow> Paths \<Rightarrow> Micrometer \<Rightarrow> int64 \<Rightarrow> Paths option" where
  "Fill e paths lineWidth overlapPercentage =
     (case Size e paths of
        (mn, mx) \<Rightarrow>
          map_option (\<lambda>result. microPaths e result False)
            (getLinearFill e (clipperPaths paths) mn mx lineWidth overlapPercentage))"

text \<open>
  The number of passes of the scan loop from \<open>x\<close> on when \<open>x\<close> never wraps around.
\<close>

definition scanCount :: "MicroPoint \<Rightarrow> Micrometer \<Rightarrow> Micrometer \<Rightarrow> nat" where
  "scanCount maxScanlines lineWidth x =
     (if x \<le>s X maxScanlines
      then nat ((sint (X maxScanlines) - sint x) div sint lineWidth) + 1 else 0)"


subsection \<open>Example values\<close>

text \<open>
  An engine to run the definitions on. Offsetting inwards by up to 5 keeps every polygon,
  by up to 15 only the first one, and further none; the union nests every polygon in
  the one before it; the
  intersection fails when a clip polygon has fewer than three points and otherwise
  returns every subject line. \<^verbatim>\<open>Size\<close> is the bounding box of the points, \<^verbatim>\<open>Sub\<close> the difference of
  two points, and \<^verbatim>\<open>ShorterThan\<close> compares the squared length.
\<close>

definition sMin :: "int64 \<Rightarrow> int64 \<Rightarrow> int64" where
  "sMin a b = (if a \<le>s b then a else b)"

definition sMax :: "int64 \<Rightarrow> int64 \<Rightarrow> int64" where
  "sMax a b = (if a \<le>s b then b else a)"

definition demoSize :: "Paths \<Rightarrow> MicroPoint \<times> MicroPoint" where
  "demoSize ps =
     (case concat ps of
        [] \<Rightarrow> (NewMicroPoint 0 0, NewMicroPoint 0 0)
      | p # qs \<Rightarrow>
          (NewMicroPoint (fold (\<lambda>q. sMin (X q)) qs (X p)) (fold (\<lambda>q. sMin (Y q)) qs (Y p)),
           NewMicroPoint (fold (\<lambda>q. sMax (X q)) qs (X p)) (fold (\<lambda>q. sMax (Y q)) qs (Y p))))"

fun demoNest :: "CPaths \<Rightarrow> PolyNode list" where
  "demoNest [] = []"
| "demoNest (p # ps) = [PolyNode p (demoNest ps)]"

definition demoExtern :: extern where
  "demoExtern =
     \<lparr> offsetExecute = (\<lambda>ps d. if - 5 \<le> d then ps else if - 15 \<le> d then take 1 ps else []),
       unionExecute2 = (\<lambda>ps. Some (PolyNode [] (demoNest ps))),
       intersectExecute2 = (\<lambda>clip subj.
          if list_ex (\<lambda>c. length c < 3) clip then None
          else Some (PolyNode [] (map (\<lambda>l. PolyNode l []) subj))),
       fillDelta = (\<lambda>lineWidth overlapPercentage.
          - real_of_int ((sint lineWidth * (100 - sint overlapPercentage)) div 100)),
       Simplify = (\<lambda>p a b. p),
       Size = demoSize,
       Sub = (\<lambda>a b. NewMicroPoint (X a - X b) (Y a - Y b)),
       ShorterThan = (\<lambda>p l. sint (X p) * sint (X p) + sint (Y p) * sint (Y p) < sint l * sint l) \<rparr>"

text \<open>The same engine, except that offsetting keeps every polygon at every distance.\<close>

definition demoKeepExtern :: extern where
  "demoKeepExtern = demoExtern\<lparr>offsetExecute := (\<lambda>ps d. ps)\<rparr>"

text \<open>A square of side 100 with a square hole of side 20.\<close>

definition demoPart :: layerPart where
  "demoPart =
     \<lparr> outline = [NewMicroPoint 0 0, NewMicroPoint 100 0, NewMicroPoint 100 100, NewMicroPoint 0 100],
       holes = [[NewMicroPoint 40 40, NewMicroPoint 40 60, NewMicroPoint 60 60, NewMicroPoint 60 40]] \<rparr>"

text \<open>
  A triangle, a path of two points (too short for a polygon), and a triangle of no width
  at the abscissa \<open>x\<close>.
\<close>

definition demoTriangle :: Path where
  "demoTriangle = [NewMicroPoint 0 0, NewMicroPoint 20 0, NewMicroPoint 0 10]"

definition demoSegment :: Path where
  "demoSegment = [NewMicroPoint 5 5, NewMicroPoint 6 6]"

definition demoSliver :: "int64 \<Rightarrow> Path" where
  "demoSliver x = [NewMicroPoint x 0, NewMicroPoint x 10, NewMicroPoint x 5]"

text \<open>
  A path with points nearer than 100 to their predecessors, and a rectangle around a hole
  around an island.
\<close>

definition demoPolygon :: Path where
  "demoPolygon = [NewMicroPoint 0 0, NewMicroPoint 60 0, NewMicroPoint 120 0, NewMicroPoint 130 0,
     NewMicroPoint 300 0]"

definition demoRectangle :: Path where
  "demoRectangle = [NewMicroPoint 0 0, NewMicroPoint 9000 0, NewMicroPoint 9000 9000, NewMicroPoint 0 9000]"

definition demoHole :: Path where
  "demoHole = [NewMicroPoint 1000 1000, NewMicroPoint 1000 8000, NewMicroPoint 8000 8000,
     NewMicroPoint 8000 1000]"

definition demoIsland :: Path where
  "demoIsland = [NewMicroPoint 3000 3000, NewMicroPoint 6000 3000, NewMicroPoint 6000 6000,
     NewMicroPoint 3000 6000]"

section \<open>Properties of Inset\<close>

lemma padWall_eq: "padWall levels insetNr = levels @ replicate (Suc insetNr - length levels) []"
proof (induction levels insetNr rule: padWall.induct)
  case (1 levels insetNr)
  show ?case
  proof (cases "length levels \<le> insetNr")
    case True
    have "padWall levels insetNr = padWall (levels @ [[]]) insetNr"
      using True padWall.simps [of levels insetNr] by simp
    also have "\<dots> = (levels @ [[]]) @ replicate (Suc insetNr - length (levels @ [[]])) []"
      using 1 True by simp
    also have "\<dots> = levels @ replicate (Suc insetNr - length levels) []"
      using True by (simp add: Suc_diff_le)
    finally show ?thesis .
  next
    case False
    then show ?thesis
      using padWall.simps [of levels insetNr] by simp
  qed
qed

lemma pad_update:
  assumes "length old \<le> n"
  shows "(padWall old n)[n := (padWall old n ! n) @ [wall]] = extendWall old n wall"
proof -
  have "padWall old n = (old @ replicate (n - length old) []) @ [[]]"
    using assms by (simp add: padWall_eq Suc_diff_le replicate_append_same)
  moreover have "length (old @ replicate (n - length old) []) = n"
    using assms by simp
  ultimately show ?thesis
    by (metis append.assoc append_Nil extendWall_def list_update_length nth_append_length)
qed

lemma length_padWall: "length (padWall old n) = max (length old) (Suc n)"
  by (simp add: padWall_eq)

lemma wallStep_eq:
  assumes "wallNr \<le> length insets"
    and "wallNr < length insets \<longrightarrow> length (insets ! wallNr) \<le> insetNr"
  shows "wallStep insets insetNr wallNr wall =
     Inr (if wallNr < length insets then insets[wallNr := extendWall (insets ! wallNr) insetNr wall]
          else insets @ [extendWall [] insetNr wall])"
proof (cases "wallNr < length insets")
  case True
  then show ?thesis
    using assms pad_update [of "insets ! wallNr" insetNr wall]
    by (simp add: wallStep_def Let_def length_padWall)
next
  case False
  then have "wallNr = length insets"
    using assms by simp
  then show ?thesis
    using pad_update [of "[]" insetNr wall]
    by (simp add: wallStep_def Let_def length_padWall)
qed


lemma wallLoop_spec:
  assumes "wallNr \<le> length insets"
    and "\<forall>w. wallNr \<le> w \<and> w < length insets \<longrightarrow> length (insets ! w) \<le> insetNr"
  shows "\<exists>insets'. wallLoop insets insetNr wallNr walls = Inr insets' \<and>
           length insets' = max (length insets) (wallNr + length walls) \<and>
           (\<forall>w < length insets'. insets' ! w =
              (if wallNr \<le> w \<and> w < wallNr + length walls
               then extendWall (if w < length insets then insets ! w else []) insetNr (walls ! (w - wallNr))
               else insets ! w))"
  using assms
proof (induction walls arbitrary: insets wallNr)
  case Nil
  then show ?case by auto
next
  case (Cons wall walls)
  define insets1 where "insets1 =
    (if wallNr < length insets then insets[wallNr := extendWall (insets ! wallNr) insetNr wall]
     else insets @ [extendWall [] insetNr wall])"
  have step: "wallStep insets insetNr wallNr wall = Inr insets1"
    using Cons.prems by (simp add: wallStep_eq insets1_def)
  have len1: "length insets1 = max (length insets) (Suc wallNr)"
    using Cons.prems(1) by (auto simp: insets1_def)
  have nth1: "insets1 ! w = (if w = wallNr
      then extendWall (if w < length insets then insets ! w else []) insetNr wall
      else insets ! w)" if "w < length insets1" for w
    using that Cons.prems(1) by (auto simp: insets1_def nth_append)
  have p1: "Suc wallNr \<le> length insets1"
    using len1 by simp
  have p2: "\<forall>w. Suc wallNr \<le> w \<and> w < length insets1 \<longrightarrow> length (insets1 ! w) \<le> insetNr"
    using Cons.prems len1 nth1 by auto
  obtain insets' where r: "wallLoop insets1 insetNr (Suc wallNr) walls = Inr insets'"
    and l: "length insets' = max (length insets1) (Suc wallNr + length walls)"
    and n: "\<forall>w < length insets'. insets' ! w =
              (if Suc wallNr \<le> w \<and> w < Suc wallNr + length walls
               then extendWall (if w < length insets1 then insets1 ! w else []) insetNr (walls ! (w - Suc wallNr))
               else insets1 ! w)"
    using Cons.IH [OF p1 p2] by blast
  have "wallLoop insets insetNr wallNr (wall # walls) = Inr insets'"
    using step r by simp
  moreover have "length insets' = max (length insets) (wallNr + length (wall # walls))"
    using l len1 by simp
  moreover have "insets' ! w =
      (if wallNr \<le> w \<and> w < wallNr + length (wall # walls)
       then extendWall (if w < length insets then insets ! w else []) insetNr ((wall # walls) ! (w - wallNr))
       else insets ! w)" if w: "w < length insets'" for w
  proof -
    consider "w < wallNr" | "w = wallNr" | "Suc wallNr \<le> w" "w < Suc wallNr + length walls"
      | "Suc wallNr + length walls \<le> w"
      by linarith
    then show ?thesis
    proof cases
      case 1
      then have "w < length insets1" using p1 by simp
      then show ?thesis using n w 1 nth1 [of w] by simp
    next
      case 2
      then have "w < length insets1" using p1 by simp
      then show ?thesis using n w 2 nth1 [of w] by simp
    next
      case 3
      have "(w < length insets1) = (w < length insets)"
        using 3 len1 by auto
      moreover have "w < length insets1 \<Longrightarrow> insets1 ! w = insets ! w"
        using nth1 [of w] 3 by simp
      moreover have "(wall # walls) ! (w - wallNr) = walls ! (w - Suc wallNr)"
        using 3 by (simp add: nth_Cons')
      ultimately show ?thesis using n w 3 by (simp cong: if_cong)
    next
      case 4
      then have "w < length insets1" using w l by simp
      then show ?thesis using n w 4 nth1 [of w] by simp
    qed
  qed
  ultimately show ?case by blast
qed


lemma wallLen_le: "wallLen walls n w \<le> n"
  by (induction n) auto

lemma wallLen_zero: "wallCount walls n \<le> w \<Longrightarrow> wallLen walls n w = 0"
  by (induction n) auto

lemma wallLen_pos: "w < wallCount walls n \<Longrightarrow> 0 < wallLen walls n w"
  by (induction n) auto

lemma wallLen_last: "0 < wallLen walls n w \<Longrightarrow> w < length (walls (wallLen walls n w - 1))"
  by (induction n) auto

lemma wallLen_after: "wallLen walls n w \<le> l \<Longrightarrow> l < n \<Longrightarrow> length (walls l) \<le> w"
proof (induction n)
  case 0
  then show ?case by simp
next
  case (Suc n)
  then show ?case
    using wallLen_le [of walls n w] by (cases "l = n") (auto split: if_splits)
qed

lemma wallLen_full: "0 < n \<Longrightarrow> w < length (walls (n - 1)) \<Longrightarrow> wallLen walls n w = n"
  by (cases n) auto

lemma wallCount_ge: "l < n \<Longrightarrow> length (walls l) \<le> wallCount walls n"
proof (induction n)
  case 0
  then show ?case by simp
next
  case (Suc n)
  then show ?case by (cases "l = n") auto
qed

lemma wallCount_attained: "0 < n \<Longrightarrow> \<exists>l<n. wallCount walls n = length (walls l)"
proof (induction n)
  case 0
  then show ?case by simp
next
  case (Suc n)
  show ?case
  proof (cases "wallCount walls n \<le> length (walls n)")
    case True
    then show ?thesis by (auto simp: max_def)
  next
    case False
    then have "0 < n" by (cases n) auto
    then obtain l where "l < n" "wallCount walls n = length (walls l)"
      using Suc.IH by blast
    then show ?thesis
      using False by (auto simp: max_def intro: exI [of _ l])
  qed
qed

lemma length_insetsAfter: "length (insetsAfter walls n) = wallCount walls n"
  by (simp add: insetsAfter_def)

lemma nth_insetsAfter:
  "w < wallCount walls n \<Longrightarrow> insetsAfter walls n ! w = map (levelEntry walls w) [0..<wallLen walls n w]"
  by (simp add: insetsAfter_def)

lemma extend_levels:
  assumes "w < length (walls n)"
  shows "extendWall (map (levelEntry walls w) [0..<wallLen walls n w]) n (walls n ! w) =
     map (levelEntry walls w) [0..<Suc n]"
proof -
  let ?k = "wallLen walls n w"
  have k: "?k \<le> n" by (rule wallLen_le)
  have "map (levelEntry walls w) [?k..<n] = replicate (n - ?k) []"
  proof (rule nth_equalityI)
    show "length (map (levelEntry walls w) [?k..<n]) = length (replicate (n - ?k) ([]::Paths))"
      by simp
  next
    fix i assume "i < length (map (levelEntry walls w) [?k..<n])"
    then have i: "?k + i < n" by simp
    then have "length (walls (?k + i)) \<le> w"
      using wallLen_after [of walls n w "?k + i"] by simp
    then show "map (levelEntry walls w) [?k..<n] ! i = replicate (n - ?k) [] ! i"
      using i by (simp add: levelEntry_def)
  qed
  moreover have "[0..<Suc n] = [0..<?k] @ [?k..<n] @ [n]"
    using k upt_add_eq_append [of 0 ?k "n - ?k"] by simp
  moreover have "levelEntry walls w n = [walls n ! w]"
    using assms by (simp add: levelEntry_def)
  ultimately show ?thesis
    by (simp add: extendWall_def)
qed

lemma level_step:
  "wallLoop (insetsAfter walls n) n 0 (walls n) = Inr (insetsAfter walls (Suc n))"
proof -
  have a: "0 \<le> length (insetsAfter walls n)" by simp
  have b: "\<forall>w. 0 \<le> w \<and> w < length (insetsAfter walls n) \<longrightarrow> length (insetsAfter walls n ! w) \<le> n"
    by (simp add: length_insetsAfter nth_insetsAfter wallLen_le)
  obtain insets' where r: "wallLoop (insetsAfter walls n) n 0 (walls n) = Inr insets'"
    and l: "length insets' = max (length (insetsAfter walls n)) (0 + length (walls n))"
    and nth: "\<forall>w < length insets'. insets' ! w =
              (if 0 \<le> w \<and> w < 0 + length (walls n)
               then extendWall (if w < length (insetsAfter walls n) then insetsAfter walls n ! w else [])
                      n (walls n ! (w - 0))
               else insetsAfter walls n ! w)"
    using wallLoop_spec [OF a b, of "walls n"] by blast
  have "insets' = insetsAfter walls (Suc n)"
  proof (rule nth_equalityI)
    show "length insets' = length (insetsAfter walls (Suc n))"
      using l by (simp add: length_insetsAfter)
  next
    fix w assume w: "w < length insets'"
    then have w': "w < wallCount walls (Suc n)"
      using l by (simp add: length_insetsAfter)
    have old: "(if w < length (insetsAfter walls n) then insetsAfter walls n ! w else []) =
        map (levelEntry walls w) [0..<wallLen walls n w]"
      by (simp add: length_insetsAfter nth_insetsAfter wallLen_zero)
    show "insets' ! w = insetsAfter walls (Suc n) ! w"
    proof (cases "w < length (walls n)")
      case True
      then show ?thesis
        using nth w old extend_levels [of w walls n] nth_insetsAfter [OF w'] by simp
    next
      case False
      then have "w < wallCount walls n"
        using w' by (simp add: max_def split: if_splits)
      then show ?thesis
        using nth w False nth_insetsAfter [OF w'] nth_insetsAfter [of w walls n] by simp
    qed
  qed
  then show ?thesis using r by simp
qed

lemma levelWalls_Nil_iff:
  "levelWalls e part offset l = [] \<longleftrightarrow>
     offsetExecute e (addedPaths part) (insetDelta offset l) = []"
  by (simp add: levelWalls_def microPaths_def)

lemma insetLoop_closed:
  assumes "\<forall>l. k \<le> l \<and> l < n \<longrightarrow> int l < insetCount \<and> levelWalls e part offset l \<noteq> []"
    and "k \<le> n"
    and "insetCount \<le> int n \<or> levelWalls e part offset n = []"
  shows "insetLoop e part offset insetCount k (insetsAfter (levelWalls e part offset) k) calls =
     Inr (insetsAfter (levelWalls e part offset) n,
          calls @ map (levelCall e part offset) [k..<(if int n < insetCount then Suc n else n)])"
  using assms
proof (induction "n - k" arbitrary: k calls)
  case 0
  then have kn: "k = n" by simp
  show ?case
  proof (cases "int n < insetCount")
    case True
    then have "levelWalls e part offset n = []"
      using "0.prems"(3) by auto
    then show ?thesis
      using True kn levelWalls_Nil_iff [of e part offset n]
      by (simp add: insetLoop.simps [of e part offset insetCount n] Let_def levelCall_def)
  next
    case False
    then show ?thesis
      using kn by (simp add: insetLoop.simps [of e part offset insetCount n])
  qed
next
  case (Suc d)
  then have kn: "k < n" by simp
  then have lt: "int k < insetCount" and ne: "levelWalls e part offset k \<noteq> []"
    using Suc.prems(1) by auto
  have d: "d = n - Suc k" using Suc.hyps(2) by simp
  have p1: "\<forall>l. Suc k \<le> l \<and> l < n \<longrightarrow> int l < insetCount \<and> levelWalls e part offset l \<noteq> []"
    using Suc.prems(1) by auto
  have p2: "Suc k \<le> n" using kn by simp
  let ?m = "if int n < insetCount then Suc n else n"
  have rec: "insetLoop e part offset insetCount (Suc k) (insetsAfter (levelWalls e part offset) (Suc k))
       (calls @ [levelCall e part offset k]) =
     Inr (insetsAfter (levelWalls e part offset) n,
          (calls @ [levelCall e part offset k]) @ map (levelCall e part offset) [Suc k..<?m])"
    using Suc.hyps(1) [OF d p1 p2 Suc.prems(3)] .
  have upt: "[k..<?m] = k # [Suc k..<?m]"
    using kn by (simp add: upt_conv_Cons)
  have ne': "offsetExecute e (addedPaths part) (insetDelta offset k) \<noteq> []"
    using ne levelWalls_Nil_iff [of e part offset k] by simp
  have step: "wallLoop (insetsAfter (levelWalls e part offset) k) k 0
      (microPaths e (offsetExecute e (addedPaths part)
         (insetDelta offset k)) True) = Inr (insetsAfter (levelWalls e part offset) (Suc k))"
    using level_step [of "levelWalls e part offset" k] by (simp add: levelWalls_def)
  show ?case
    using lt ne' step rec upt
    by (simp add: insetLoop.simps [of e part offset insetCount k] Let_def levelCall_def)
qed

lemma levels_exist:
  "\<exists>n. (\<forall>l<n. int l < insetCount \<and> walls l \<noteq> []) \<and> (insetCount \<le> int n \<or> walls n = [])"
proof -
  define P where "P n \<longleftrightarrow> insetCount \<le> int n \<or> walls n = []" for n
  define m where "m = (LEAST n. P n)"
  have "P (nat insetCount)" by (simp add: P_def)
  then have Pm: "P m" unfolding m_def by (rule LeastI)
  have "\<not> P l" if "l < m" for l
    using that not_less_Least [of l P] by (simp add: m_def)
  then have "\<forall>l<m. int l < insetCount \<and> walls l \<noteq> []"
    by (fastforce simp: P_def)
  then show ?thesis
    using Pm unfolding P_def by blast
qed

lemma insetLoop_result:
  assumes "\<forall>l<n. int l < insetCount \<and> levelWalls e part offset l \<noteq> []"
    and "insetCount \<le> int n \<or> levelWalls e part offset n = []"
  shows "insetLoop e part offset insetCount 0 [] [] =
     Inr (insetsAfter (levelWalls e part offset) n,
          map (levelCall e part offset) [0..<(if int n < insetCount then Suc n else n)])"
proof -
  have "insetsAfter (levelWalls e part offset) 0 = []"
    by (simp add: insetsAfter_def)
  then show ?thesis
    using insetLoop_closed [of 0 n insetCount e part offset "[]"] assms by simp
qed

lemma roundEven_exact: "m \<le> 2 ^ 53 \<Longrightarrow> roundEven m = m"
proof (cases "m < 2 ^ 53")
  case True
  then have "dropBits m = 0"
    by (subst dropBits.simps) simp
  then show ?thesis
    by (simp add: roundEven_def)
next
  case False
  assume "m \<le> 2 ^ 53"
  then have m: "m = 2 ^ 53"
    using False by simp
  have "dropBits (2 ^ 52) = 0"
    by (subst dropBits.simps) simp
  then have "dropBits (2 ^ 53) = 1"
    by (subst dropBits.simps) simp
  then have "dropBits m = 1"
    using m by simp
  then show ?thesis
    using m by (simp add: roundEven_def)
qed

lemma rnd53_exact: "\<bar>k\<bar> \<le> 2 ^ 53 \<Longrightarrow> rnd53 k = k"
proof -
  assume a: "\<bar>k\<bar> \<le> 2 ^ 53"
  then have "nat \<bar>k\<bar> \<le> 2 ^ 53"
    by (simp add: nat_le_iff)
  then have "roundEven (nat \<bar>k\<bar>) = nat \<bar>k\<bar>"
    by (rule roundEven_exact)
  then show ?thesis
    by (simp add: rnd53_def sgn_if)
qed

lemma sint_of_int_64:
  "- (2 ^ 63) \<le> x \<Longrightarrow> x < 2 ^ 63 \<Longrightarrow> sint (word_of_int x :: int64) = x"
  by (simp add: signed_of_int signed_take_bit_int_eq_self)

lemma sint_quo_2: "sint (quo offset 2) = sint offset sdiv 2"
proof -
  have "- (2 ^ 63) \<le> sint offset" "sint offset < 2 ^ 63"
    using sint_ge [of offset] sint_lt [of offset] by simp_all
  then have "- (2 ^ 63) \<le> sint offset sdiv 2 \<and> sint offset sdiv 2 < 2 ^ 63"
    by (auto simp: signed_divide_int_def sgn_if)
  then show ?thesis
    by (simp add: quo_def sint_of_int_64)
qed

lemma sint_level_product:
  assumes "- (2 ^ 63) < sint offset * int l" and "sint offset * int l \<le> 2 ^ 63"
  shows "sint (- (offset * of_nat l) :: int64) = - (sint offset * int l)"
proof -
  have "(- (offset * of_nat l) :: int64) = word_of_int (- (sint offset * int l))"
    by simp
  then show ?thesis
    using assms sint_of_int_64 [of "- (sint offset * int l)"] by simp
qed

lemma wallLen_gt: "l < n \<Longrightarrow> w < length (walls l) \<Longrightarrow> l < wallLen walls n w"
  using wallLen_after [of walls n w l] by (cases "l < wallLen walls n w") simp_all

lemma insetDelta_exact:
  assumes "\<bar>sint offset\<bar> * int l + \<bar>sint offset sdiv 2\<bar> \<le> 2 ^ 53"
  shows "insetDelta offset l = - (real_of_int (sint offset) * real l) - real_of_int (sint offset sdiv 2)"
proof -
  let ?a = "sint offset * int l" and ?b = "sint offset sdiv 2"
  have "\<bar>?a\<bar> = \<bar>sint offset\<bar> * int l"
    by (simp add: abs_mult)
  then have a: "\<bar>?a\<bar> \<le> 2 ^ 53" and ab: "\<bar>?a\<bar> + \<bar>?b\<bar> \<le> 2 ^ 53"
    using assms by simp_all
  have b: "\<bar>?b\<bar> \<le> 2 ^ 53"
    using ab by simp
  have "- (2 ^ 63) < ?a" "?a \<le> 2 ^ 63"
    using a by simp_all
  then have "sint (- (offset * of_nat l)) = - ?a"
    by (rule sint_level_product)
  then have 1: "float64 ((- offset) * of_nat l) = - ?a"
    using a by (simp add: float64_def rnd53_exact)
  have 2: "float64 (quo offset 2) = ?b"
    using b by (simp add: float64_def sint_quo_2 rnd53_exact)
  have "\<bar>- ?a - ?b\<bar> \<le> 2 ^ 53"
    using ab by simp
  then have "float64Sub (- ?a) ?b = - ?a - ?b"
    by (simp add: float64Sub_def rnd53_exact)
  then show ?thesis
    using 1 2 by (simp add: insetDelta_def)
qed

lemmas float_eval = demoKeepExtern_def demoExtern_def demoPart_def addedPaths_def clipperPaths_def
  clipperPoint_def microPaths_def microPath_def microPoint_def insetDelta_def float64_def
  float64Sub_def rnd53_def roundEven_def dropBits.simps quo_def signed_divide_int_def
  wallStep_def padWall.simps insetLoop.simps Let_def

lemmas demo_eval = demoExtern_def demoPart_def addedPaths_def clipperPaths_def clipperPoint_def
  microPaths_def microPath_def microPoint_def insetDelta_def float64_def float64Sub_def
  rnd53_exact quo_def signed_divide_int_def
  wallStep_def padWall.simps insetLoop.simps Let_def

lemma mono_levels:
  assumes "\<forall>l. Suc l < n \<longrightarrow> f l \<le> (f (Suc l) :: nat)"
  shows "l \<le> m \<Longrightarrow> m < n \<Longrightarrow> f l \<le> f m"
proof (induction m)
  case 0
  then show ?case by simp
next
  case (Suc m)
  show ?case
  proof (cases "l = Suc m")
    case True
    then show ?thesis by simp
  next
    case False
    then have "f l \<le> f m" using Suc by simp
    moreover have "f m \<le> f (Suc m)" using assms Suc.prems by simp
    ultimately show ?thesis by simp
  qed
qed

text \<open>
  C10. With \<open>insetCount \<le> 0\<close> the loop body never runs: \<^verbatim>\<open>Inset\<close> returns no wall
  and the engine's \<^verbatim>\<open>Execute\<close> is not called at all.
\<close>

theorem Inset_no_levels:
  "insetCount \<le> 0 \<Longrightarrow>
     Inset e part offset insetCount = Inr [] \<and> InsetCalls e part offset insetCount = Inr []"
  by (simp add: Inset_def InsetCalls_def insetLoop.simps)

theorem Inset_no_levels_witness:
  "(- 1 :: int) \<le> 0 \<and> Inset demoExtern demoPart 10 (- 1) = Inr [] \<and>
     InsetCalls demoExtern demoPart 10 (- 1) = Inr []"
  using Inset_no_levels [of "- 1" demoExtern demoPart 10] by simp

text \<open>
  C4, as stated, fails. With \<open>offset = 2 ^ 62\<close> and an engine that keeps returning
  contours, level 3 is reached and \<^verbatim>\<open>-int(offset)*3\<close> wraps around to \<open>2 ^ 62\<close>: the
  distance handed to the engine is \<open>+2 ^ 61\<close>, while \<open>-(offset * 3) - offset / 2\<close> is
  \<open>-16140901064495857664\<close>. And without any integer overflow, \<open>offset = 2 ^ 54 + 2\<close>
  has \<open>offset / 2 = 2 ^ 53 + 1\<close>, which \<^verbatim>\<open>float64\<close> rounds to \<open>2 ^ 53\<close>: the distance at
  level 0 is \<open>-9007199254740992\<close>, not \<open>-9007199254740993\<close>.
\<close>

theorem Inset_offset_distance_fails:
  "InsetCalls demoKeepExtern demoPart 4611686018427387904 4 =
     Inr [(addedPaths demoPart, - 2305843009213693952),
          (addedPaths demoPart, - 6917529027641081856),
          (addedPaths demoPart, - 11529215046068469760),
          (addedPaths demoPart, 2305843009213693952)] \<and>
   - (sint (4611686018427387904 :: int64) * 3) - sint (4611686018427387904 :: int64) sdiv 2 =
     - 16140901064495857664 \<and>
   insetDelta 18014398509481986 0 = - 9007199254740992 \<and>
   - (sint (18014398509481986 :: int64) * 0) - sint (18014398509481986 :: int64) sdiv 2 =
     - 9007199254740993"
  by (simp add: InsetCalls_def float_eval)

text \<open>
  C4, amended. \<^verbatim>\<open>Inset\<close> never panics, and it calls the engine at most \<open>insetCount\<close>
  times, at least once when \<open>insetCount > 0\<close>. At every inset level that is reached the
  engine is executed on the outline and the holes with the distance
  \<^verbatim>\<open>float64(-int(offset)*insetLevel) - float64(offset/2)\<close>, and every contour that it
  returns at that distance is recorded, simplified, at that level of the wall of its index.
  Whenever \<open>\<bar>offset\<bar> * insetLevel + \<bar>offset / 2\<bar> \<le> 2 ^ 53\<close>, so that neither \<^verbatim>\<open>int64\<close>
  wraps around nor \<^verbatim>\<open>float64\<close> rounds, that distance is exactly
  \<open>-(offset * insetLevel) - offset / 2\<close>, with \<open>offset / 2\<close> the integer quotient
  truncated towards zero.
\<close>

theorem Inset_offset_distance:
  "\<exists>calls insets.
     InsetCalls e part offset insetCount = Inr calls \<and>
     Inset e part offset insetCount = Inr insets \<and>
     int (length calls) \<le> max 0 insetCount \<and>
     (0 < insetCount \<longrightarrow> 0 < length calls) \<and>
     (\<forall>insetLevel < length calls.
        calls ! insetLevel = (addedPaths part, insetDelta offset insetLevel) \<and>
        (\<bar>sint offset\<bar> * int insetLevel + \<bar>sint offset sdiv 2\<bar> \<le> 2 ^ 53 \<longrightarrow>
           insetDelta offset insetLevel =
             - (real_of_int (sint offset) * real insetLevel) - real_of_int (sint offset sdiv 2)) \<and>
        (\<forall>w < length (offsetExecute e (addedPaths part) (insetDelta offset insetLevel)).
           w < length insets \<and> insetLevel < length (insets ! w) \<and>
           insets ! w ! insetLevel =
             [microPaths e (offsetExecute e (addedPaths part) (insetDelta offset insetLevel)) True ! w]))"
proof -
  let ?W = "levelWalls e part offset"
  obtain n where n1: "\<forall>l<n. int l < insetCount \<and> ?W l \<noteq> []"
    and n2: "insetCount \<le> int n \<or> ?W n = []"
    using levels_exist [of insetCount ?W] by blast
  let ?m = "if int n < insetCount then Suc n else n"
  let ?calls = "map (levelCall e part offset) [0..<?m]"
  let ?I = "insetsAfter ?W n"
  have r: "insetLoop e part offset insetCount 0 [] [] = Inr (?I, ?calls)"
    using insetLoop_result [OF n1 n2] .
  have c: "InsetCalls e part offset insetCount = Inr ?calls"
    using r by (simp add: InsetCalls_def)
  have i: "Inset e part offset insetCount = Inr ?I"
    using r by (simp add: Inset_def)
  have "int n \<le> max 0 insetCount"
  proof (cases n)
    case 0
    then show ?thesis by simp
  next
    case (Suc k)
    then have "int k < insetCount" using n1 by simp
    then show ?thesis using Suc by simp
  qed
  then have len: "int (length ?calls) \<le> max 0 insetCount"
    by auto
  have pos: "0 < insetCount \<longrightarrow> 0 < length ?calls"
    by auto
  have lw: "length (?W l) = length (offsetExecute e (addedPaths part) (insetDelta offset l))" for l
    by (simp add: levelWalls_def microPaths_def)
  have level: "calls_l = (addedPaths part, insetDelta offset l) \<and>
        (\<bar>sint offset\<bar> * int l + \<bar>sint offset sdiv 2\<bar> \<le> 2 ^ 53 \<longrightarrow>
           insetDelta offset l =
             - (real_of_int (sint offset) * real l) - real_of_int (sint offset sdiv 2)) \<and>
        (\<forall>w < length (offsetExecute e (addedPaths part) (insetDelta offset l)).
           w < length ?I \<and> l < length (?I ! w) \<and>
           ?I ! w ! l = [microPaths e (offsetExecute e (addedPaths part) (insetDelta offset l)) True ! w])"
    if l: "l < length ?calls" and cl: "calls_l = ?calls ! l" for l calls_l
  proof (intro conjI impI allI)
    show "calls_l = (addedPaths part, insetDelta offset l)"
      using l cl by (simp add: levelCall_def del: upt_Suc)
  next
    assume "\<bar>sint offset\<bar> * int l + \<bar>sint offset sdiv 2\<bar> \<le> 2 ^ 53"
    then show "insetDelta offset l =
        - (real_of_int (sint offset) * real l) - real_of_int (sint offset sdiv 2)"
      by (rule insetDelta_exact)
  next
    fix w
    assume w: "w < length (offsetExecute e (addedPaths part) (insetDelta offset l))"
    then have wl: "w < length (?W l)"
      using lw [of l] by simp
    have ln: "l < n"
    proof (rule ccontr)
      assume "\<not> l < n"
      then have "l = n" "int n < insetCount"
        using l by (auto split: if_splits)
      then have "?W l = []"
        using n2 by auto
      then show False
        using wl by simp
    qed
    have wc: "w < wallCount ?W n"
      using wallCount_ge [OF ln, of ?W] wl by simp
    have ll: "l < wallLen ?W n w"
      using wallLen_gt [of l n w ?W] ln wl by simp
    show "w < length ?I"
      using wc by (simp add: length_insetsAfter)
    show "l < length (?I ! w)"
      using wc ll by (simp add: nth_insetsAfter)
    show "?I ! w ! l = [microPaths e (offsetExecute e (addedPaths part) (insetDelta offset l)) True ! w]"
      using wc ll wl by (simp add: nth_insetsAfter levelEntry_def levelWalls_def)
  qed
  show ?thesis
    using c i len pos level by blast
qed

theorem Inset_offset_distance_witness:
  "InsetCalls demoExtern demoPart 10 3 =
     Inr [(addedPaths demoPart, - 5), (addedPaths demoPart, - 15), (addedPaths demoPart, - 25)] \<and>
   Inset demoExtern demoPart 10 3 =
     Inr [[[outline demoPart], [outline demoPart]], [[hd (holes demoPart)]]] \<and>
   insetDelta 10 1 = - (real_of_int (sint (10 :: int64)) * real 1) - real_of_int (sint (10 :: int64) sdiv 2) \<and>
   insetDelta 10 1 = - 15"
  using Inset_offset_distance [of demoExtern demoPart 10 3]
  by (simp add: InsetCalls_def Inset_def demo_eval)

text \<open>
  C5. When level \<open>n\<close> is the first at which the engine's \<^verbatim>\<open>Execute\<close> returns no
  contour, the engine is called for the levels \<open>0, \<dots>, n\<close> and no more, the result is that
  of asking for \<open>n\<close> levels only (no wall has more than \<open>n\<close> levels), and it is a result,
  not an error; for \<open>n = 0\<close> it has no wall.
\<close>

theorem Inset_stops_at_empty_level:
  assumes "int n < insetCount"
    and "offsetExecute e (addedPaths part) (insetDelta offset n) = []"
    and "\<forall>l<n. offsetExecute e (addedPaths part) (insetDelta offset l) \<noteq> []"
  shows "InsetCalls e part offset insetCount =
       Inr (map (\<lambda>l. (addedPaths part, insetDelta offset l)) [0..<Suc n]) \<and>
     Inset e part offset insetCount = Inset e part offset (int n) \<and>
     (\<exists>insets. Inset e part offset insetCount = Inr insets \<and>
        (\<forall>w < length insets. length (insets ! w) \<le> n)) \<and>
     (n = 0 \<longrightarrow> Inset e part offset insetCount = Inr [])"
proof -
  let ?W = "levelWalls e part offset"
  have n1: "\<forall>l<n. int l < insetCount \<and> ?W l \<noteq> []"
    using assms(1,3) by (auto simp: levelWalls_Nil_iff)
  have n2: "insetCount \<le> int n \<or> ?W n = []"
    using assms(2) by (simp add: levelWalls_Nil_iff)
  have n1': "\<forall>l<n. int l < int n \<and> ?W l \<noteq> []"
    using n1 by simp
  have r: "insetLoop e part offset insetCount 0 [] [] =
      Inr (insetsAfter ?W n, map (levelCall e part offset) [0..<Suc n])"
    using insetLoop_result [OF n1 n2] assms(1) by simp
  have r': "insetLoop e part offset (int n) 0 [] [] =
      Inr (insetsAfter ?W n, map (levelCall e part offset) [0..<n])"
    using insetLoop_result [of n "int n" e part offset] n1' by simp
  have c: "InsetCalls e part offset insetCount =
       Inr (map (\<lambda>l. (addedPaths part, insetDelta offset l)) [0..<Suc n])"
    using r by (simp add: InsetCalls_def levelCall_def del: upt_Suc)
  have i: "Inset e part offset insetCount = Inr (insetsAfter ?W n)"
    using r by (simp add: Inset_def)
  have i': "Inset e part offset (int n) = Inr (insetsAfter ?W n)"
    using r' by (simp add: Inset_def)
  have l: "\<forall>w < length (insetsAfter ?W n). length (insetsAfter ?W n ! w) \<le> n"
    by (simp add: length_insetsAfter nth_insetsAfter wallLen_le)
  have z: "n = 0 \<longrightarrow> insetsAfter ?W n = []"
    by (simp add: insetsAfter_def)
  show ?thesis
    using c i i' l z by simp
qed

theorem Inset_stops_at_empty_level_witness:
  "InsetCalls demoExtern demoPart 10 3 =
     Inr (map (\<lambda>l. (addedPaths demoPart, insetDelta 10 l)) [0..<Suc 2]) \<and>
   Inset demoExtern demoPart 10 3 = Inset demoExtern demoPart 10 (int 2) \<and>
   Inset demoExtern demoPart 40 3 = Inr []"
proof -
  have a: "int 2 < (3::int)" "int 0 < (3::int)" by simp_all
  have b: "offsetExecute demoExtern (addedPaths demoPart) (insetDelta 10 2) = []"
    by (simp add: demo_eval)
  have c: "\<forall>l<2. offsetExecute demoExtern (addedPaths demoPart) (insetDelta 10 l) \<noteq> []"
    by (simp add: numeral_2_eq_2 All_less_Suc demo_eval)
  have d: "offsetExecute demoExtern (addedPaths demoPart) (insetDelta 40 0) = []"
    by (simp add: demo_eval)
  have e: "\<forall>l<0. offsetExecute demoExtern (addedPaths demoPart) (insetDelta 40 l) \<noteq> []"
    by simp
  have "Inset demoExtern demoPart 40 3 = Inr []"
    using Inset_stops_at_empty_level [OF a(2) d e] by blast
  then show ?thesis
    using Inset_stops_at_empty_level [OF a(1) b c] by simp
qed

text \<open>
  C1, as stated, fails. The example engine returns two contours at level 0 and one at
  level 1: wall 0 gets two levels and wall 1 stays at one, although two levels produced
  contours.
\<close>

theorem Inset_wall_lengths_differ:
  "Inset demoExtern demoPart 10 2 =
     Inr [[[outline demoPart], [outline demoPart]], [[hd (holes demoPart)]]] \<and>
   map_sum id (map length) (Inset demoExtern demoPart 10 2) = Inr [2, 1]"
  by (simp add: Inset_def demo_eval)

text \<open>
  C1, amended. Let \<open>n\<close> be the number of levels that produced contours (every level
  below \<open>n\<close> is within \<open>insetCount\<close> and has contours; level \<open>n\<close> is beyond
  \<open>insetCount\<close> or has none). \<^verbatim>\<open>Inset\<close> returns without a panic, and for every wall
  \<open>w\<close> of the result: it has at least one and at most \<open>n\<close> levels; the last of them is
  the last level at which the engine returned more than \<open>w\<close> contours; each level holds
  the wall's contour of that level, or the empty \<^verbatim>\<open>Paths\<close> when that level had no wall
  \<open>w\<close>. There are as many walls as the largest number of contours of a level. When the
  number of contours never decreases from one level to the next, every wall has exactly
  \<open>n\<close> levels.
\<close>

theorem Inset_wall_levels:
  assumes "\<forall>l<n. int l < insetCount \<and> levelWalls e part offset l \<noteq> []"
    and "insetCount \<le> int n \<or> levelWalls e part offset n = []"
  shows "\<exists>insets. Inset e part offset insetCount = Inr insets \<and>
     (\<forall>w < length insets.
        0 < length (insets ! w) \<and> length (insets ! w) \<le> n \<and>
        w < length (levelWalls e part offset (length (insets ! w) - 1)) \<and>
        (\<forall>l. length (insets ! w) \<le> l \<and> l < n \<longrightarrow> length (levelWalls e part offset l) \<le> w) \<and>
        (\<forall>l < length (insets ! w). insets ! w ! l =
           (if w < length (levelWalls e part offset l) then [levelWalls e part offset l ! w] else []))) \<and>
     (\<forall>l<n. length (levelWalls e part offset l) \<le> length insets) \<and>
     ((\<forall>l. Suc l < n \<longrightarrow>
          length (levelWalls e part offset l) \<le> length (levelWalls e part offset (Suc l))) \<longrightarrow>
        (\<forall>w < length insets. length (insets ! w) = n))"
proof -
  let ?W = "levelWalls e part offset"
  let ?I = "insetsAfter ?W n"
  have r: "Inset e part offset insetCount = Inr ?I"
    using insetLoop_result [OF assms] by (simp add: Inset_def)
  have len: "length (?I ! w) = wallLen ?W n w" if "w < length ?I" for w
    using that by (simp add: length_insetsAfter nth_insetsAfter)
  have pos: "w < length ?I \<Longrightarrow> 0 < wallLen ?W n w" for w
    by (simp add: length_insetsAfter wallLen_pos)
  have walls: "\<forall>w < length ?I.
        0 < length (?I ! w) \<and> length (?I ! w) \<le> n \<and>
        w < length (?W (length (?I ! w) - 1)) \<and>
        (\<forall>l. length (?I ! w) \<le> l \<and> l < n \<longrightarrow> length (?W l) \<le> w) \<and>
        (\<forall>l < length (?I ! w). ?I ! w ! l = (if w < length (?W l) then [?W l ! w] else []))"
  proof (intro allI impI)
    fix w assume w: "w < length ?I"
    have e: "\<forall>l < wallLen ?W n w. ?I ! w ! l = (if w < length (?W l) then [?W l ! w] else [])"
      using w by (simp add: length_insetsAfter nth_insetsAfter levelEntry_def)
    show "0 < length (?I ! w) \<and> length (?I ! w) \<le> n \<and>
        w < length (?W (length (?I ! w) - 1)) \<and>
        (\<forall>l. length (?I ! w) \<le> l \<and> l < n \<longrightarrow> length (?W l) \<le> w) \<and>
        (\<forall>l < length (?I ! w). ?I ! w ! l = (if w < length (?W l) then [?W l ! w] else []))"
      using len [OF w] pos [OF w] wallLen_le [of ?W n w] wallLen_last [OF pos [OF w]]
        wallLen_after [of ?W n w] e
      by simp
  qed
  have count: "\<forall>l<n. length (?W l) \<le> length ?I"
    by (simp add: length_insetsAfter wallCount_ge)
  have dense: "\<forall>w < length ?I. length (?I ! w) = n"
    if mono: "\<forall>l. Suc l < n \<longrightarrow> length (?W l) \<le> length (?W (Suc l))"
  proof (intro allI impI)
    fix w assume w: "w < length ?I"
    then have n0: "0 < n"
      by (cases n) (simp_all add: length_insetsAfter)
    then obtain l where l: "l < n" "wallCount ?W n = length (?W l)"
      using wallCount_attained [of n ?W] by blast
    have "length (?W l) \<le> length (?W (n - 1))"
      using mono_levels [OF mono, of l "n - 1"] l(1) n0 by simp
    then have "w < length (?W (n - 1))"
      using w l(2) by (simp add: length_insetsAfter)
    then show "length (?I ! w) = n"
      using len [OF w] wallLen_full [OF n0] by simp
  qed
  show ?thesis
    using r walls count dense by blast
qed

theorem Inset_wall_levels_witness:
  "(\<exists>insets. Inset demoExtern demoPart 10 3 = Inr insets \<and>
      (\<forall>w < length insets. 0 < length (insets ! w) \<and> length (insets ! w) \<le> 2 \<and>
         w < length (levelWalls demoExtern demoPart 10 (length (insets ! w) - 1)))) \<and>
   (\<exists>insets. Inset demoExtern demoPart 10 1 = Inr insets \<and>
      (\<forall>w < length insets. length (insets ! w) = 1))"
proof -
  have a: "\<forall>l<2. int l < 3 \<and> levelWalls demoExtern demoPart 10 l \<noteq> []"
    by (simp add: numeral_2_eq_2 All_less_Suc levelWalls_def demo_eval)
  have b: "3 \<le> int 2 \<or> levelWalls demoExtern demoPart 10 2 = []"
    by (simp add: levelWalls_def demo_eval)
  have c: "\<forall>l<1. int l < 1 \<and> levelWalls demoExtern demoPart 10 l \<noteq> []"
    by (simp add: levelWalls_def demo_eval)
  have d: "1 \<le> int 1 \<or> levelWalls demoExtern demoPart 10 1 = []"
    by simp
  have e: "\<forall>l. Suc l < 1 \<longrightarrow> length (levelWalls demoExtern demoPart 10 l)
      \<le> length (levelWalls demoExtern demoPart 10 (Suc l))"
    by simp
  have "\<exists>insets. Inset demoExtern demoPart 10 3 = Inr insets \<and>
      (\<forall>w < length insets. 0 < length (insets ! w) \<and> length (insets ! w) \<le> 2 \<and>
         w < length (levelWalls demoExtern demoPart 10 (length (insets ! w) - 1)))"
    using Inset_wall_levels [OF a b] by blast
  moreover have "\<exists>insets. Inset demoExtern demoPart 10 1 = Inr insets \<and>
      (\<forall>w < length insets. length (insets ! w) = 1)"
    using Inset_wall_levels [OF c d] e by blast
  ultimately show ?thesis by blast
qed

section \<open>Properties of Fill\<close>

text \<open>
  An invariant rule for the scan loop: what holds at the head of the loop and is kept by
  its body holds when the loop is left.
\<close>

lemma scanLoop_rule:
  assumes run: "scanLoop mn mx lw x k lines = Some y"
    and init: "I x k lines"
    and step: "\<And>x k lines. I x k lines \<Longrightarrow> x \<le>s X mx \<Longrightarrow>
                 I (x + lw) (Suc k) (lines @ [scanLine mn mx x k])"
    and exit: "\<And>x k lines. I x k lines \<Longrightarrow> \<not> x \<le>s X mx \<Longrightarrow> Q lines"
  shows "Q y"
proof -
  have "mn' = mn \<and> mx' = mx \<and> lw' = lw \<and> I x' k' lines' \<longrightarrow> Q y'"
    if r: "scanLoop mn' mx' lw' x' k' lines' = Some y'" for mn' mx' lw' x' k' lines' y'
    by (rule scanLoop.raw_induct
        [where xa = "(((((mn', mx'), lw'), x'), k'), lines')"
           and P = "\<lambda>mn' mx' lw' x' k' lines' y'.
             mn' = mn \<and> mx' = mx \<and> lw' = lw \<and> I x' k' lines' \<longrightarrow> Q y'", simplified, OF _ r])
      (auto split: if_splits simp: step exit)
  then show ?thesis
    using run init by blast
qed

lemma sint_add_no_wrap:
  assumes "- (2 ^ 63) \<le> sint (x :: int64) + sint (lw :: int64)" and "sint x + sint lw < 2 ^ 63"
  shows "sint (x + lw) = sint x + sint lw"
proof -
  have "x + lw = word_of_int (sint x + sint lw)"
    by simp
  then show ?thesis
    using assms sint_of_int_64 [of "sint x + sint lw"] by simp
qed

lemma scanLoop_terminates:
  assumes lw: "0 < sint lw" and fit: "sint (X mx) + sint lw < 2 ^ 63"
  shows "scanLoop mn mx lw x k lines =
     Some (lines @ map (\<lambda>i. scanLine mn mx (x + of_nat i * lw) (k + i)) [0..<scanCount mx lw x])"
proof (induction "nat (sint (X mx) - sint x + 1)" arbitrary: x k lines rule: less_induct)
  case less
  show ?case
  proof (cases "x \<le>s X mx")
    case False
    then show ?thesis
      by (simp add: scanLoop.simps [of mn mx lw x] scanCount_def)
  next
    case True
    then have le: "sint x \<le> sint (X mx)"
      by (simp add: word_sle_eq)
    have ge: "- (2 ^ 63) \<le> sint x"
      using sint_ge [of x] by simp
    have s: "sint (x + lw) = sint x + sint lw"
      using le ge lw fit by (intro sint_add_no_wrap) simp_all
    have m: "nat (sint (X mx) - sint (x + lw) + 1) < nat (sint (X mx) - sint x + 1)"
      using s le lw by simp
    have c: "scanCount mx lw x = Suc (scanCount mx lw (x + lw))"
    proof (cases "x + lw \<le>s X mx")
      case True
      then have "sint lw \<le> sint (X mx) - sint x"
        using s by (simp add: word_sle_eq)
      then have a: "0 \<le> sint (X mx) - sint x - sint lw"
        by simp
      have "(sint (X mx) - sint x) div sint lw = (sint (X mx) - sint x - sint lw) div sint lw + 1"
        using lw div_add_self2 [of "sint lw" "sint (X mx) - sint x - sint lw"] by simp
      moreover have "0 \<le> (sint (X mx) - sint x - sint lw) div sint lw"
        using a lw by (simp add: pos_imp_zdiv_nonneg_iff)
      ultimately show ?thesis
        using True \<open>x \<le>s X mx\<close> s by (simp add: scanCount_def nat_add_distrib diff_diff_eq)
    next
      case False
      then have "sint (X mx) - sint x < sint lw"
        using s by (simp add: word_sle_eq)
      then have "(sint (X mx) - sint x) div sint lw = 0"
        using le by (simp add: div_pos_pos_trivial)
      then show ?thesis
        using False \<open>x \<le>s X mx\<close> by (simp add: scanCount_def)
    qed
    have "scanLoop mn mx lw x k lines =
        scanLoop mn mx lw (x + lw) (Suc k) (lines @ [scanLine mn mx x k])"
      using True by (simp add: scanLoop.simps [of mn mx lw x])
    also have "\<dots> = Some ((lines @ [scanLine mn mx x k]) @
        map (\<lambda>i. scanLine mn mx (x + lw + of_nat i * lw) (Suc k + i)) [0..<scanCount mx lw (x + lw)])"
      using less [OF m] .
    also have "\<dots> = Some (lines @
        map (\<lambda>i. scanLine mn mx (x + of_nat i * lw) (k + i)) [0..<scanCount mx lw x])"
      unfolding c by (simp add: map_upt_Suc algebra_simps del: upt_Suc)
    finally show ?thesis .
  qed
qed


lemma scanLoop_maxint:
  assumes "X mx = 9223372036854775807"
  shows "scanLoop mn mx lw x k lines = None"
proof (cases "scanLoop mn mx lw x k lines")
  case None
  then show ?thesis .
next
  case (Some y)
  have "x' \<le>s X mx" for x'
    using sint_lt [of x'] assms by (simp add: word_sle_eq)
  then have False
    using scanLoop_rule [OF Some, of "\<lambda>x k lines. True" "\<lambda>lines. False"] by simp
  then show ?thesis ..
qed

lemma scanLoop_zero_width:
  assumes "x \<le>s X mx"
  shows "scanLoop mn mx 0 x k lines = None"
proof (cases "scanLoop mn mx 0 x k lines")
  case None
  then show ?thesis .
next
  case (Some y)
  have False
    using scanLoop_rule [OF Some, of "\<lambda>x' k lines. x' = x" "\<lambda>lines. False"] assms by simp
  then show ?thesis ..
qed

lemma scanLoop_negative_width:
  assumes run: "scanLoop mn mx lw x0 0 [] = Some y"
    and neg: "sint lw < 0"
    and le: "x0 \<le>s X mx"
  shows "sint x0 + int (length y) * sint lw < - (2 ^ 63)"
proof -
  define I where "I x k lines \<longleftrightarrow> length lines = k \<and>
      (sint x0 + int k * sint lw < - (2 ^ 63) \<or> sint x = sint x0 + int k * sint lw)"
    for x :: int64 and k :: nat and lines :: CPaths
  define Q where "Q lines \<longleftrightarrow> sint x0 + int (length lines) * sint lw < - (2 ^ 63)"
    for lines :: CPaths
  have init: "I x0 0 []"
    by (simp add: I_def)
  have step: "I (x + lw) (Suc k) (lines @ [scanLine mn mx x k])"
    if i: "I x k lines" and c: "x \<le>s X mx" for x k lines
  proof (cases "sint x0 + int k * sint lw < - (2 ^ 63)")
    case True
    have "int (Suc k) * sint lw = int k * sint lw + sint lw"
      by (simp add: algebra_simps)
    then have "sint x0 + int (Suc k) * sint lw < - (2 ^ 63)"
      using True neg by linarith
    then show ?thesis
      using i by (simp add: I_def)
  next
    case False
    then have e: "sint x = sint x0 + int k * sint lw"
      using i by (simp add: I_def)
    have k1: "int (Suc k) * sint lw = int k * sint lw + sint lw"
      by (simp add: algebra_simps)
    show ?thesis
    proof (cases "- (2 ^ 63) \<le> sint x + sint lw")
      case True
      have "sint x + sint lw < 2 ^ 63"
        using sint_lt [of x] neg by simp
      then have "sint (x + lw) = sint x + sint lw"
        using True by (intro sint_add_no_wrap) simp_all
      then have "sint (x + lw) = sint x0 + int (Suc k) * sint lw"
        using e k1 by linarith
      then show ?thesis
        using i by (simp add: I_def)
    next
      case False
      then have "sint x0 + int (Suc k) * sint lw < - (2 ^ 63)"
        using e k1 by linarith
      then show ?thesis
        using i by (simp add: I_def)
    qed
  qed
  have exit: "Q lines" if i: "I x k lines" and c: "\<not> x \<le>s X mx" for x k lines
  proof (cases "sint x0 + int k * sint lw < - (2 ^ 63)")
    case True
    then show ?thesis
      using i by (simp add: I_def Q_def)
  next
    case False
    then have "sint x = sint x0 + int k * sint lw"
      using i by (simp add: I_def)
    moreover have "int k * sint lw \<le> 0"
      using neg by (simp add: mult_nonneg_nonpos)
    ultimately have "sint x \<le> sint (X mx)"
      using le by (simp add: word_sle_eq)
    then show ?thesis
      using c by (simp add: word_sle_eq)
  qed
  have "Q y"
    using scanLoop_rule [OF run, of I Q] init step exit by blast
  then show ?thesis
    by (simp add: Q_def)
qed

lemma scan_x_no_wrap:
  assumes lw: "0 < sint lw" and le: "sint x \<le> sint (X mx)"
    and i: "i < scanCount mx lw x"
  shows "sint (x + of_nat i * lw) = sint x + int i * sint lw \<and> x + of_nat i * lw \<le>s X mx"
proof -
  have "0 \<le> (sint (X mx) - sint x) div sint lw"
    using lw le by (simp add: pos_imp_zdiv_nonneg_iff)
  then have "int i \<le> (sint (X mx) - sint x) div sint lw"
    using i le by (simp add: scanCount_def word_sle_eq split: if_splits)
  then have "int i * sint lw \<le> (sint (X mx) - sint x) div sint lw * sint lw"
    using lw by (simp add: mult_right_mono)
  also have "\<dots> \<le> sint (X mx) - sint x"
    using lw by (simp add: minus_mod_eq_div_mult [symmetric])
  finally have b: "sint x + int i * sint lw \<le> sint (X mx)"
    by simp
  have "0 \<le> int i * sint lw"
    using lw by simp
  then have lo: "- (2 ^ 63) \<le> sint x + int i * sint lw"
    using sint_ge [of x] by simp
  have hi: "sint x + int i * sint lw < 2 ^ 63"
    using b sint_lt [of "X mx"] by simp
  have "x + of_nat i * lw = word_of_int (sint x + int i * sint lw)"
    by simp
  then have "sint (x + of_nat i * lw) = sint x + int i * sint lw"
    using lo hi sint_of_int_64 [of "sint x + int i * sint lw"] by simp
  then show ?thesis
    using b by (simp add: word_sle_eq)
qed


lemma clipLoop_failure:
  assumes "path \<in> set polys"
    and "intersectExecute2 e (offsetExecute e [path] delta) lines = None"
  shows "clipLoop e lines delta polys result = []"
  using assms
proof (induction polys arbitrary: result)
  case Nil
  then show ?case by simp
next
  case (Cons p polys)
  show ?case
  proof (cases "intersectExecute2 e (offsetExecute e [p] delta) lines")
    case None
    then show ?thesis by simp
  next
    case (Some tree)
    then have "path \<in> set polys"
      using Cons.prems by auto
    then show ?thesis
      using Some Cons.IH Cons.prems(2) by simp
  qed
qed

lemma clipLoop_success:
  assumes "\<forall>path \<in> set polys. intersectExecute2 e (offsetExecute e [path] delta) lines \<noteq> None"
  shows "clipLoop e lines delta polys result =
     result @ concat (map (\<lambda>path. map Contour
        (Childs (the (intersectExecute2 e (offsetExecute e [path] delta) lines)))) polys)"
  using assms by (induction polys arbitrary: result) auto

lemma Fill_Some_iff:
  assumes "Size e paths = (mn, mx)"
  shows "Fill e paths lineWidth overlapPercentage = None \<longleftrightarrow>
     scanLoop mn mx lineWidth (X mn) 0 [] = None"
  using assms by (simp add: Fill_def getLinearFill_def split: option.splits)

lemmas fill_eval = Fill_def getLinearFill_def demoExtern_def demoSize_def sMin_def sMax_def
  demoTriangle_def demoSegment_def clipperPaths_def clipperPoint_def microPaths_def microPath_def
  microPoint_def scanLoop.simps scanLine_def word_sle_eq

text \<open>
  C7, as stated, fails. With the bounding box at the largest \<^verbatim>\<open>int64\<close> abscissa and
  \<open>lineWidth = 1\<close> the formula gives one line, but \<open>x <= maxX\<close> holds for every
  \<open>x\<close>: after the first line \<open>x\<close> wraps around to the smallest \<^verbatim>\<open>int64\<close>, a second
  line is appended, and the loop never ends.
\<close>

theorem scanlines_count_overflow:
  "0 <s (1 :: int64) \<and>
   X (NewMicroPoint 9223372036854775807 0) \<le>s X (NewMicroPoint 9223372036854775807 10) \<and>
   (sint (X (NewMicroPoint 9223372036854775807 10)) - sint (X (NewMicroPoint 9223372036854775807 0)))
      div sint (1 :: int64) + 1 = 1 \<and>
   scanLoop (NewMicroPoint 9223372036854775807 0) (NewMicroPoint 9223372036854775807 10) 1
      (X (NewMicroPoint 9223372036854775807 0)) 0 [] =
   scanLoop (NewMicroPoint 9223372036854775807 0) (NewMicroPoint 9223372036854775807 10) 1
      (- 9223372036854775807) 2
      [[IntPoint 9223372036854775807 0, IntPoint 9223372036854775807 10],
       [IntPoint (- 9223372036854775808) 10, IntPoint (- 9223372036854775808) 0]] \<and>
   scanLoop (NewMicroPoint 9223372036854775807 0) (NewMicroPoint 9223372036854775807 10) 1
      (X (NewMicroPoint 9223372036854775807 0)) 0 [] = None"
proof -
  let ?mn = "NewMicroPoint 9223372036854775807 0"
  let ?mx = "NewMicroPoint 9223372036854775807 10"
  have e: "(- 9223372036854775808 :: int64) = 9223372036854775808"
    "(- 9223372036854775807 :: int64) = 9223372036854775809"
    by simp_all
  have 1: "scanLoop ?mn ?mx 1 9223372036854775807 0 [] =
      scanLoop ?mn ?mx 1 (- 9223372036854775808) 1 [[IntPoint 9223372036854775807 0, IntPoint 9223372036854775807 10]]"
    by (subst scanLoop.simps) (simp add: scanLine_def word_sle_eq e numeral_2_eq_2)
  have 2: "scanLoop ?mn ?mx 1 (- 9223372036854775808) 1 [[IntPoint 9223372036854775807 0, IntPoint 9223372036854775807 10]] =
      scanLoop ?mn ?mx 1 (- 9223372036854775807) 2
        [[IntPoint 9223372036854775807 0, IntPoint 9223372036854775807 10],
         [IntPoint (- 9223372036854775808) 10, IntPoint (- 9223372036854775808) 0]]"
    by (subst scanLoop.simps) (simp add: scanLine_def word_sle_eq e numeral_2_eq_2)
  have 3: "scanLoop ?mn ?mx 1 9223372036854775807 0 [] = None"
    by (rule scanLoop_maxint) simp
  show ?thesis
    using 1 2 3 by (simp add: word_sless_alt word_sle_eq)
qed

text \<open>
  C7, amended. \<^verbatim>\<open>getLinearFill\<close> clips the lines that the scan loop returns. For
  \<open>lineWidth > 0\<close>, \<open>minX \<le> maxX\<close> and \<open>maxX + lineWidth\<close> within \<^verbatim>\<open>int64\<close> (so that
  \<open>x\<close> never wraps around), the loop ends with
  \<open>floor ((maxX - minX) / lineWidth) + 1\<close> lines, the line with index \<open>i\<close> at
  \<open>x = minX + i * lineWidth \<le> maxX\<close>.
\<close>

theorem scanlines_count:
  assumes "0 <s lineWidth"
    and "X minScanlines \<le>s X maxScanlines"
    and "sint (X maxScanlines) + sint lineWidth < 2 ^ 63"
  shows "\<exists>lines. scanLoop minScanlines maxScanlines lineWidth (X minScanlines) 0 [] = Some lines \<and>
     int (length lines) = (sint (X maxScanlines) - sint (X minScanlines)) div sint lineWidth + 1 \<and>
     (\<forall>i < length lines.
        lines ! i = scanLine minScanlines maxScanlines (X minScanlines + of_nat i * lineWidth) i \<and>
        sint (X minScanlines + of_nat i * lineWidth) = sint (X minScanlines) + int i * sint lineWidth \<and>
        X minScanlines + of_nat i * lineWidth \<le>s X maxScanlines)"
proof -
  let ?x = "X minScanlines"
  let ?n = "scanCount maxScanlines lineWidth ?x"
  let ?lines = "map (\<lambda>i. scanLine minScanlines maxScanlines (?x + of_nat i * lineWidth) i) [0..<?n]"
  have lw: "0 < sint lineWidth"
    using assms(1) by (simp add: word_sless_alt)
  have le: "sint ?x \<le> sint (X maxScanlines)"
    using assms(2) by (simp add: word_sle_eq)
  have r: "scanLoop minScanlines maxScanlines lineWidth ?x 0 [] = Some ?lines"
    using scanLoop_terminates [OF lw assms(3), of minScanlines ?x 0 "[]"] by simp
  have "0 \<le> (sint (X maxScanlines) - sint ?x) div sint lineWidth"
    using lw le by (simp add: pos_imp_zdiv_nonneg_iff)
  then have n: "int (length ?lines) = (sint (X maxScanlines) - sint ?x) div sint lineWidth + 1"
    using assms(2) by (simp add: scanCount_def)
  have "\<forall>i < length ?lines.
        ?lines ! i = scanLine minScanlines maxScanlines (?x + of_nat i * lineWidth) i \<and>
        sint (?x + of_nat i * lineWidth) = sint ?x + int i * sint lineWidth \<and>
        ?x + of_nat i * lineWidth \<le>s X maxScanlines"
    using scan_x_no_wrap [OF lw le] by simp
  then show ?thesis
    using r n by blast
qed

theorem scanlines_count_witness:
  "\<exists>lines. scanLoop (NewMicroPoint 0 0) (NewMicroPoint 25 10) 10 0 0 [] = Some lines \<and>
     int (length lines) = 3 \<and>
     lines = [[IntPoint 0 0, IntPoint 0 10], [IntPoint 10 10, IntPoint 10 0],
              [IntPoint 20 0, IntPoint 20 10]]"
proof -
  have a: "0 <s (10 :: int64)" by (simp add: word_sless_alt)
  have b: "X (NewMicroPoint 0 0) \<le>s X (NewMicroPoint 25 10)" by (simp add: word_sle_eq)
  have c: "sint (X (NewMicroPoint 25 10)) + sint (10 :: int64) < 2 ^ 63" by simp
  show ?thesis
    using scanlines_count [OF a b c]
    by (simp add: scanLoop.simps scanLine_def word_sle_eq)
qed



text \<open>
  C9, as stated, fails. \<open>lineWidth \<ge> 1\<close> is not enough for \<^verbatim>\<open>Fill\<close> to return: it
  does not over a region that reaches the largest \<^verbatim>\<open>int64\<close> abscissa. And with a negative
  \<open>lineWidth\<close> it can return: over a region at the smallest \<^verbatim>\<open>int64\<close> abscissa and
  \<open>lineWidth = -1\<close> the loop appends one line, \<open>x\<close> wraps around to the largest
  \<^verbatim>\<open>int64\<close>, and the loop is left.
\<close>

theorem Fill_termination_fails:
  "Fill demoExtern [demoSliver 9223372036854775807] 1 0 = None \<and>
   Fill demoExtern [demoSliver (- 9223372036854775808)] (- 1) 0 =
     Some [[NewMicroPoint (- 9223372036854775808) 0, NewMicroPoint (- 9223372036854775808) 10]]"
proof -
  have s: "Size demoExtern [demoSliver 9223372036854775807] =
      (NewMicroPoint 9223372036854775807 0, NewMicroPoint 9223372036854775807 10)"
    by (simp add: fill_eval demoSliver_def)
  have "scanLoop (NewMicroPoint 9223372036854775807 0) (NewMicroPoint 9223372036854775807 10) 1
      (X (NewMicroPoint 9223372036854775807 0)) 0 [] = None"
    by (rule scanLoop_maxint) simp
  then have 1: "Fill demoExtern [demoSliver 9223372036854775807] 1 0 = None"
    using Fill_Some_iff [OF s, of 1 0] by simp
  have 2: "Fill demoExtern [demoSliver (- 9223372036854775808)] (- 1) 0 =
     Some [[NewMicroPoint (- 9223372036854775808) 0, NewMicroPoint (- 9223372036854775808) 10]]"
    by (simp add: fill_eval demoSliver_def)
  show ?thesis
    using 1 2 by simp
qed

text \<open>
  C9, amended. With the bounding box \<open>(mn, mx)\<close> of the region: \<^verbatim>\<open>Fill\<close> returns when
  \<open>lineWidth \<ge> 1\<close> and \<open>maxX + lineWidth\<close> is within \<^verbatim>\<open>int64\<close>; it never returns
  when \<open>lineWidth = 0\<close> and \<open>minX \<le> maxX\<close>; and with a negative \<open>lineWidth\<close> and
  \<open>minX \<le> maxX\<close> it returns only after \<open>x\<close> has run below the smallest \<^verbatim>\<open>int64\<close>
  and wrapped around.
\<close>

theorem Fill_termination:
  assumes "Size e paths = (mn, mx)"
  shows "(0 <s lineWidth \<and> sint (X mx) + sint lineWidth < 2 ^ 63 \<longrightarrow>
            (\<exists>r. Fill e paths lineWidth overlapPercentage = Some r)) \<and>
         (lineWidth = 0 \<and> X mn \<le>s X mx \<longrightarrow>
            Fill e paths lineWidth overlapPercentage = None) \<and>
         (lineWidth <s 0 \<and> X mn \<le>s X mx \<longrightarrow>
            (\<forall>r. Fill e paths lineWidth overlapPercentage = Some r \<longrightarrow>
               (\<exists>lines. scanLoop mn mx lineWidth (X mn) 0 [] = Some lines \<and>
                  sint (X mn) + int (length lines) * sint lineWidth < - (2 ^ 63))))"
proof (intro conjI impI allI)
  assume "0 <s lineWidth \<and> sint (X mx) + sint lineWidth < 2 ^ 63"
  then have "scanLoop mn mx lineWidth (X mn) 0 [] \<noteq> None"
    using scanLoop_terminates [of lineWidth mx mn "X mn" 0 "[]"] by (simp add: word_sless_alt)
  then show "\<exists>r. Fill e paths lineWidth overlapPercentage = Some r"
    using Fill_Some_iff [OF assms, of lineWidth overlapPercentage] by auto
next
  assume "lineWidth = 0 \<and> X mn \<le>s X mx"
  then show "Fill e paths lineWidth overlapPercentage = None"
    using Fill_Some_iff [OF assms, of lineWidth overlapPercentage] scanLoop_zero_width [of "X mn" mx mn 0 "[]"]
    by simp
next
  fix r
  assume a: "lineWidth <s 0 \<and> X mn \<le>s X mx" and f: "Fill e paths lineWidth overlapPercentage = Some r"
  then obtain lines where l: "scanLoop mn mx lineWidth (X mn) 0 [] = Some lines"
    using Fill_Some_iff [OF assms, of lineWidth overlapPercentage] by auto
  have "sint (X mn) + int (length lines) * sint lineWidth < - (2 ^ 63)"
    using scanLoop_negative_width [OF l] a by (simp add: word_sless_alt)
  then show "\<exists>lines. scanLoop mn mx lineWidth (X mn) 0 [] = Some lines \<and>
      sint (X mn) + int (length lines) * sint lineWidth < - (2 ^ 63)"
    using l by blast
qed

theorem Fill_termination_witness:
  "(\<exists>r. Fill demoExtern [demoTriangle] 10 50 = Some r) \<and>
   Fill demoExtern [demoTriangle] 0 50 = None \<and>
   (\<exists>lines. scanLoop (NewMicroPoint (- 9223372036854775808) 0) (NewMicroPoint (- 9223372036854775808) 10)
        (- 1) (- 9223372036854775808) 0 [] = Some lines \<and>
      sint (- 9223372036854775808 :: int64) + int (length lines) * sint (- 1 :: int64) < - (2 ^ 63))"
proof -
  have a: "Size demoExtern [demoTriangle] = (NewMicroPoint 0 0, NewMicroPoint 20 10)"
    by (simp add: fill_eval)
  have b: "Size demoExtern [demoSliver (- 9223372036854775808)] =
      (NewMicroPoint (- 9223372036854775808) 0, NewMicroPoint (- 9223372036854775808) 10)"
    by (simp add: fill_eval demoSliver_def)
  have c: "Fill demoExtern [demoSliver (- 9223372036854775808)] (- 1) 0 =
     Some [[NewMicroPoint (- 9223372036854775808) 0, NewMicroPoint (- 9223372036854775808) 10]]"
    by (simp add: fill_eval demoSliver_def)
  have "\<exists>r. Fill demoExtern [demoTriangle] 10 50 = Some r"
    using Fill_termination [OF a, of 10 50] by (simp add: word_sless_alt)
  moreover have "Fill demoExtern [demoTriangle] 0 50 = None"
    using Fill_termination [OF a, of 0 50] by (simp add: word_sle_eq)
  moreover have "\<exists>lines. scanLoop (NewMicroPoint (- 9223372036854775808) 0)
        (NewMicroPoint (- 9223372036854775808) 10) (- 1) (- 9223372036854775808) 0 [] = Some lines \<and>
      sint (- 9223372036854775808 :: int64) + int (length lines) * sint (- 1 :: int64) < - (2 ^ 63)"
    using Fill_termination [OF b, of "- 1" 0] c by (simp add: word_sless_alt word_sle_eq)
  ultimately show ?thesis by blast
qed

text \<open>
  C2, as stated, fails. Over the triangle alone \<^verbatim>\<open>Fill\<close> returns three lines; with a
  second contour on which the intersection fails, it returns nothing at all.
\<close>

theorem Fill_failure_discards_all:
  "Fill demoExtern [demoTriangle] 10 50 =
     Some [[NewMicroPoint 0 0, NewMicroPoint 0 10], [NewMicroPoint 10 10, NewMicroPoint 10 0],
           [NewMicroPoint 20 0, NewMicroPoint 20 10]] \<and>
   intersectExecute2 demoExtern
     (offsetExecute demoExtern [map clipperPoint demoSegment] (fillDelta demoExtern 10 50))
     [[IntPoint 0 0, IntPoint 0 10], [IntPoint 10 10, IntPoint 10 0],
      [IntPoint 20 0, IntPoint 20 10]] = None \<and>
   Fill demoExtern [demoTriangle, demoSegment] 10 50 = Some []"
  by (simp add: fill_eval)

text \<open>
  C2, amended. When the scan loop returns \<open>lines\<close>: if the intersection fails for some
  contour of the region, \<^verbatim>\<open>Fill\<close> returns the empty result, whatever the other contours
  produced; if it fails for none, \<^verbatim>\<open>Fill\<close> returns the sub-paths of all contours, in
  the order of the contours.
\<close>

theorem Fill_intersection_failure:
  assumes "Size e paths = (mn, mx)"
    and "scanLoop mn mx lineWidth (X mn) 0 [] = Some lines"
  shows "((\<exists>path \<in> set (clipperPaths paths).
            intersectExecute2 e (offsetExecute e [path] (fillDelta e lineWidth overlapPercentage)) lines
              = None) \<longrightarrow>
          Fill e paths lineWidth overlapPercentage = Some []) \<and>
         ((\<forall>path \<in> set (clipperPaths paths).
            intersectExecute2 e (offsetExecute e [path] (fillDelta e lineWidth overlapPercentage)) lines
              \<noteq> None) \<longrightarrow>
          Fill e paths lineWidth overlapPercentage =
            Some (microPaths e
              (concat (map (\<lambda>path. map Contour (Childs (the
                  (intersectExecute2 e (offsetExecute e [path]
                     (fillDelta e lineWidth overlapPercentage)) lines))))
                (clipperPaths paths))) False))"
  using assms clipLoop_failure [of _ "clipperPaths paths" e "fillDelta e lineWidth overlapPercentage" lines "[]"]
    clipLoop_success [of "clipperPaths paths" e "fillDelta e lineWidth overlapPercentage" lines "[]"]
  by (auto simp: Fill_def getLinearFill_def microPaths_def)

theorem Fill_intersection_failure_witness:
  "Fill demoExtern [demoTriangle, demoSegment] 10 50 = Some [] \<and>
   Fill demoExtern [demoTriangle] 10 50 =
     Some [[NewMicroPoint 0 0, NewMicroPoint 0 10], [NewMicroPoint 10 10, NewMicroPoint 10 0],
           [NewMicroPoint 20 0, NewMicroPoint 20 10]]"
proof -
  let ?lines = "[[IntPoint 0 0, IntPoint 0 10], [IntPoint 10 10, IntPoint 10 0],
      [IntPoint 20 0, IntPoint 20 10]]"
  have a: "Size demoExtern [demoTriangle, demoSegment] = (NewMicroPoint 0 0, NewMicroPoint 20 10)"
    by (simp add: fill_eval)
  have a': "Size demoExtern [demoTriangle] = (NewMicroPoint 0 0, NewMicroPoint 20 10)"
    by (simp add: fill_eval)
  have b: "scanLoop (NewMicroPoint 0 0) (NewMicroPoint 20 10) 10 (X (NewMicroPoint 0 0)) 0 [] = Some ?lines"
    by (simp add: fill_eval)
  have c: "\<exists>path \<in> set (clipperPaths [demoTriangle, demoSegment]).
      intersectExecute2 demoExtern (offsetExecute demoExtern [path] (fillDelta demoExtern 10 50)) ?lines = None"
    by (simp add: fill_eval)
  have d: "\<forall>path \<in> set (clipperPaths [demoTriangle]).
      intersectExecute2 demoExtern (offsetExecute demoExtern [path] (fillDelta demoExtern 10 50)) ?lines \<noteq> None"
    by (simp add: fill_eval)
  have "Fill demoExtern [demoTriangle, demoSegment] 10 50 = Some []"
    using Fill_intersection_failure [OF a b, of 50] c by blast
  moreover have "Fill demoExtern [demoTriangle] 10 50 =
     Some [[NewMicroPoint 0 0, NewMicroPoint 0 10], [NewMicroPoint 10 10, NewMicroPoint 10 0],
           [NewMicroPoint 20 0, NewMicroPoint 20 10]]"
    using Fill_intersection_failure [OF a' b, of 50] d by (simp add: fill_eval)
  ultimately show ?thesis by simp
qed

section \<open>Properties of GenerateLayerParts\<close>

lemma convertPoints_from:
  assumes "layerPolygon = pre @ rest" and "length pre = j" and "0 < j" and "prev < j"
  shows "convertPoints e layerPolygon j rest prev path =
     Inr (path @ map clipperPoint (retainFrom (tooNear100 e) (layerPolygon ! prev) rest))"
  using assms
proof (induction rest arbitrary: pre j prev path)
  case Nil
  then show ?case by simp
next
  case (Cons p rest)
  have i: "index layerPolygon prev = Inr (layerPolygon ! prev)"
    using Cons.prems by (simp add: index_def)
  have split: "layerPolygon = (pre @ [p]) @ rest" "length (pre @ [p]) = Suc j" "0 < Suc j"
    using Cons.prems by simp_all
  have pj: "layerPolygon ! j = p"
    using Cons.prems by (simp add: nth_append)
  show ?case
  proof (cases "tooNear100 e p (layerPolygon ! prev)")
    case True
    have "prev < Suc j" using Cons.prems by simp
    then show ?thesis
      using Cons.IH [OF split, of prev path] True i Cons.prems(3)
      by (simp add: tooNear100_def)
  next
    case False
    have "j < Suc j" by simp
    then show ?thesis
      using Cons.IH [OF split, of j "path @ [clipperPoint p]"] False i pj Cons.prems(3)
      by (simp add: tooNear100_def)
  qed
qed

lemma convertPoints_eq:
  "convertPoints e layerPolygon 0 layerPolygon 0 [] =
     Inr (map clipperPoint (retainedPoints (tooNear100 e) layerPolygon))"
proof (cases layerPolygon)
  case Nil
  then show ?thesis by simp
next
  case (Cons p ps)
  have "convertPoints e (p # ps) (Suc 0) ps 0 [clipperPoint p] =
      Inr ([clipperPoint p] @ map clipperPoint (retainFrom (tooNear100 e) ((p # ps) ! 0) ps))"
    by (rule convertPoints_from [of _ "[p]"]) simp_all
  then show ?thesis
    using Cons by (simp add: index_def)
qed

lemma retainFrom_run:
  "\<forall>q \<in> set run. tooNear q kept \<Longrightarrow> retainFrom tooNear kept (run @ rest) = retainFrom tooNear kept rest"
  by (induction run) simp_all

lemma retainFrom_append:
  "retainFrom tooNear kept (xs @ ys) =
     retainFrom tooNear kept xs @ retainFrom tooNear (last (kept # retainFrom tooNear kept xs)) ys"
  by (induction xs arbitrary: kept) simp_all

lemma retainedPoints_append:
  "pre \<noteq> [] \<Longrightarrow> retainedPoints tooNear (pre @ ys) =
     retainedPoints tooNear pre @ retainFrom tooNear (last (retainedPoints tooNear pre)) ys"
  by (cases pre) (simp_all add: retainFrom_append)

lemma convertPolygons_eq:
  "convertPolygons e l polyList =
     Inr (polyList @ map (\<lambda>layerPolygon. map clipperPoint (retainedPoints (tooNear100 e) layerPolygon)) l)"
  by (induction l arbitrary: polyList) (simp_all add: convertPoints_eq)

lemmas points_eval = demoExtern_def demoPolygon_def index_def clipperPoint_def

text \<open>
  C3. The preprocessing of \<^verbatim>\<open>GenerateLayerParts\<close> never panics and turns every raw path
  into the points that the specification retains: the first point, and every later point
  exactly when it is not \<^verbatim>\<open>ShorterThan(100)\<close> away from the most recently retained
  point (not from its predecessor in the input). So a run of points that are all too
  near to the most recently retained point leaves no point at all.
\<close>

theorem near_points_dropped:
  "convertPolygons e l [] =
     Inr (map (\<lambda>layerPolygon. map clipperPoint
        (retainedPoints (\<lambda>p kept. ShorterThan e (Sub e p kept) 100) layerPolygon)) l) \<and>
   convertPoints e layerPolygon 0 layerPolygon 0 [] =
     Inr (map clipperPoint (retainedPoints (\<lambda>p kept. ShorterThan e (Sub e p kept) 100) layerPolygon)) \<and>
   (layerPolygon \<noteq> [] \<longrightarrow>
      (\<exists>path. convertPoints e layerPolygon 0 layerPolygon 0 [] =
         Inr (clipperPoint (hd layerPolygon) # path))) \<and>
   (pre \<noteq> [] \<and>
    (\<forall>q \<in> set run. ShorterThan e
        (Sub e q (last (retainedPoints (\<lambda>p kept. ShorterThan e (Sub e p kept) 100) pre))) 100) \<longrightarrow>
      convertPoints e (pre @ run @ rest) 0 (pre @ run @ rest) 0 [] =
      convertPoints e (pre @ rest) 0 (pre @ rest) 0 [])"
proof -
  have n: "(\<lambda>p kept. ShorterThan e (Sub e p kept) 100) = tooNear100 e"
    by (simp add: tooNear100_def fun_eq_iff)
  have 1: "convertPoints e layerPolygon 0 layerPolygon 0 [] =
     Inr (map clipperPoint (retainedPoints (tooNear100 e) layerPolygon))"
    by (rule convertPoints_eq)
  have 2: "layerPolygon \<noteq> [] \<longrightarrow>
      (\<exists>path. convertPoints e layerPolygon 0 layerPolygon 0 [] =
         Inr (clipperPoint (hd layerPolygon) # path))"
    using 1 by (cases layerPolygon) simp_all
  have 3: "convertPoints e (pre @ run @ rest) 0 (pre @ run @ rest) 0 [] =
      convertPoints e (pre @ rest) 0 (pre @ rest) 0 []"
    if "pre \<noteq> []" and "\<forall>q \<in> set run. tooNear100 e q (last (retainedPoints (tooNear100 e) pre))"
    using that
    by (simp add: convertPoints_eq retainedPoints_append retainFrom_run)
  show ?thesis
    unfolding n using 1 2 3 convertPolygons_eq [of e l "[]"] by (simp add: tooNear100_def)
qed

theorem near_points_dropped_witness:
  "convertPoints demoExtern demoPolygon 0 demoPolygon 0 [] =
     Inr [IntPoint 0 0, IntPoint 120 0, IntPoint 300 0] \<and>
   convertPolygons demoExtern [demoPolygon, []] [] =
     Inr [[IntPoint 0 0, IntPoint 120 0, IntPoint 300 0], []] \<and>
   convertPoints demoExtern ([NewMicroPoint 0 0] @ [NewMicroPoint 60 0, NewMicroPoint 0 99] @ [NewMicroPoint 120 0])
       0 ([NewMicroPoint 0 0] @ [NewMicroPoint 60 0, NewMicroPoint 0 99] @ [NewMicroPoint 120 0]) 0 [] =
     convertPoints demoExtern ([NewMicroPoint 0 0] @ [NewMicroPoint 120 0]) 0
       ([NewMicroPoint 0 0] @ [NewMicroPoint 120 0]) 0 []"
  using near_points_dropped [of demoExtern "[demoPolygon, []]" demoPolygon "[NewMicroPoint 0 0]"
      "[NewMicroPoint 60 0, NewMicroPoint 0 99]" "[NewMicroPoint 120 0]"]
  by (simp add: points_eval)

lemma appendNodes_Some: "appendNodes cs (Some xs) = Some (xs @ cs)"
  by (induction cs arbitrary: xs) (simp_all add: appendNode_def)

lemma childLoop_part:
  "fst (childLoop cs part s) =
     part\<lparr>holes := holes part @ map (\<lambda>child. microPath (Contour child)) cs\<rparr>"
  by (induction cs arbitrary: part s) simp_all

lemma roundLoop_parts: "fst (roundLoop ps parts s) = parts @ map partOf ps"
proof (induction ps arbitrary: parts s)
  case Nil
  then show ?case by simp
next
  case (Cons p ps)
  obtain part s' where c: "childLoop (Childs p) \<lparr>outline = microPath (Contour p), holes = []\<rparr> s = (part, s')"
    by (cases "childLoop (Childs p) \<lparr>outline = microPath (Contour p), holes = []\<rparr> s")
  have "part = partOf p"
    using childLoop_part [of "Childs p" "\<lparr>outline = microPath (Contour p), holes = []\<rparr>" s] c
    by (simp add: partOf_def)
  then show ?case
    using Cons.IH [of "parts @ [part]" s'] c by simp
qed

lemma specRounds_Nil: "specRounds [] = []"
  by (simp add: specRounds.simps [of "[]"])

lemma specRounds_step:
  "candidates \<noteq> [] \<Longrightarrow>
     specRounds candidates = map partOf candidates @ specRounds (concat (map grandChilds candidates))"
  by (subst specRounds.simps) simp

lemma rounds_eq: "rounds (Some thisRound) parts = parts @ specRounds thisRound"
proof (induction "nodesCount thisRound" arbitrary: thisRound parts rule: less_induct)
  case less
  obtain parts' nxt where r: "roundLoop thisRound parts None = (parts', nxt)"
    by (cases "roundLoop thisRound parts None")
  have p: "parts' = parts @ map partOf thisRound"
    using roundLoop_parts [of thisRound parts None] r by simp
  have n: "sliceNodes nxt = concat (map grandChilds thisRound)"
    using roundLoop_next [of thisRound parts None] r by (simp add: sliceNodes_def)
  have nn: "nxt = None \<longleftrightarrow> concat (map grandChilds thisRound) = []"
    using roundLoop_None_iff [of thisRound parts None] r by simp
  have u: "rounds (Some thisRound) parts = rounds nxt parts'"
    using r by (simp add: rounds.simps [of "Some thisRound"])
  show ?case
  proof (cases nxt)
    case None
    then have e: "concat (map grandChilds thisRound) = []"
      using nn by simp
    have "specRounds thisRound = map partOf thisRound"
    proof (cases "thisRound = []")
      case True
      then show ?thesis by (simp add: specRounds_Nil)
    next
      case False
      then show ?thesis
        using specRounds_step [OF False] specRounds_Nil by (simp only: e append_Nil2)
    qed
    then show ?thesis
      using u None p by (simp add: rounds.simps [of None])
  next
    case (Some gc)
    then have gc: "gc = concat (map grandChilds thisRound)" "gc \<noteq> []"
      using n nn by (simp_all add: sliceNodes_def)
    then have ne: "thisRound \<noteq> []"
      by auto
    have "nodesCount gc < nodesCount thisRound"
      using nodesCount_grandChilds_list [OF ne] gc by simp
    then have "rounds (Some gc) parts' = parts' @ specRounds gc"
      by (rule less)
    then show ?thesis
      using u Some p gc(1) specRounds_step [OF ne] by simp
  qed
qed

text \<open>
  C6. For every tree \<open>resultPolys\<close> that the union returns, the tree walk of
  \<^verbatim>\<open>GenerateLayerParts\<close> yields the parts of the specification: for every round of
  candidate outlines one part per candidate, with the contours of the candidate's direct
  children as its holes, followed by the parts of the next round, whose candidates are the
  grandchildren of this round's. A rectangle around a hole around an island gives two parts:
  the rectangle with the hole, and the island with no hole.
\<close>

theorem tree_walk_parts:
  "rounds (appendNodes (Childs resultPolys) (Some [])) [] = specRounds (Childs resultPolys) \<and>
   specRounds [] = [] \<and>
   (candidates \<noteq> [] \<longrightarrow>
      specRounds candidates =
        map (\<lambda>p. \<lparr>outline = microPath (Contour p),
                   holes = map (\<lambda>child. microPath (Contour child)) (Childs p)\<rparr>) candidates @
        specRounds (concat (map (\<lambda>p. concat (map Childs (Childs p))) candidates))) \<and>
   rounds (appendNodes
       (Childs (PolyNode rootContour [PolyNode rectangle [PolyNode hole [PolyNode island []]]])) (Some [])) [] =
     [\<lparr>outline = microPath rectangle, holes = [microPath hole]\<rparr>,
      \<lparr>outline = microPath island, holes = []\<rparr>] \<and>
   (convertPolygons e l [] = Inr polyList \<and> unionExecute2 e polyList = Some resultPolys \<longrightarrow>
      GenerateLayerParts e l = Inr (specRounds (Childs resultPolys), True))"
proof -
  have 1: "rounds (appendNodes (Childs t) (Some [])) [] = specRounds (Childs t)" for t
    by (simp add: appendNodes_Some rounds_eq)
  have 2: "specRounds [] = []"
    by (rule specRounds_Nil)
  have g: "(\<lambda>p. concat (map Childs (Childs p))) = grandChilds"
    by (simp add: grandChilds_def fun_eq_iff)
  have 3: "candidates \<noteq> [] \<longrightarrow>
      specRounds candidates =
        map (\<lambda>p. \<lparr>outline = microPath (Contour p),
                   holes = map (\<lambda>child. microPath (Contour child)) (Childs p)\<rparr>) candidates @
        specRounds (concat (map (\<lambda>p. concat (map Childs (Childs p))) candidates))"
    unfolding g using specRounds_step [of candidates] by (simp add: partOf_def [abs_def])
  have 4: "specRounds [PolyNode rectangle [PolyNode hole [PolyNode island []]]] =
     [\<lparr>outline = microPath rectangle, holes = [microPath hole]\<rparr>,
      \<lparr>outline = microPath island, holes = []\<rparr>]"
    by (simp add: specRounds.simps partOf_def grandChilds_def)
  have 5: "convertPolygons e l [] = Inr polyList \<and> unionExecute2 e polyList = Some resultPolys \<longrightarrow>
      GenerateLayerParts e l = Inr (specRounds (Childs resultPolys), True)"
    by (simp add: GenerateLayerParts_def 1)
  show ?thesis
    using 1 [of resultPolys]
      1 [of "PolyNode rootContour [PolyNode rectangle [PolyNode hole [PolyNode island []]]]"] 2 3 4 5
    by simp
qed

lemmas parts_eval = GenerateLayerParts_def demoExtern_def demoRectangle_def demoHole_def
  demoIsland_def index_def clipperPoint_def microPath_def microPoint_def partOf_def grandChilds_def
  appendNode_def rounds.simps

theorem tree_walk_parts_witness:
  "GenerateLayerParts demoExtern [demoRectangle, demoHole, demoIsland] =
     Inr ([\<lparr>outline = demoRectangle, holes = [demoHole]\<rparr>,
           \<lparr>outline = demoIsland, holes = []\<rparr>], True) \<and>
   specRounds [PolyNode (map clipperPoint demoIsland) []] = [\<lparr>outline = demoIsland, holes = []\<rparr>]"
proof -
  let ?polyList = "[map clipperPoint demoRectangle, map clipperPoint demoHole, map clipperPoint demoIsland]"
  let ?tree = "PolyNode [] [PolyNode (map clipperPoint demoRectangle)
      [PolyNode (map clipperPoint demoHole) [PolyNode (map clipperPoint demoIsland) []]]]"
  have a: "convertPolygons demoExtern [demoRectangle, demoHole, demoIsland] [] = Inr ?polyList"
    by (simp add: parts_eval)
  have b: "unionExecute2 demoExtern ?polyList = Some ?tree"
    by (simp add: demoExtern_def)
  have c: "[PolyNode (map clipperPoint demoIsland) []] \<noteq> []"
    by simp
  have m: "microPath (map clipperPoint demoRectangle) = demoRectangle"
    "microPath (map clipperPoint demoHole) = demoHole"
    "microPath (map clipperPoint demoIsland) = demoIsland"
    by (simp_all add: parts_eval)
  note t = tree_walk_parts [of ?tree "[PolyNode (map clipperPoint demoIsland) []]" "[]"
      "map clipperPoint demoRectangle" "map clipperPoint demoHole" "map clipperPoint demoIsland"
      demoExtern "[demoRectangle, demoHole, demoIsland]" ?polyList]
  have "GenerateLayerParts demoExtern [demoRectangle, demoHole, demoIsland] =
      Inr (specRounds (Childs ?tree), True)"
    using t a b by blast
  moreover have "specRounds (Childs ?tree) =
      [\<lparr>outline = demoRectangle, holes = [demoHole]\<rparr>, \<lparr>outline = demoIsland, holes = []\<rparr>]"
  proof -
    have e1: "rounds (appendNodes (Childs ?tree) (Some [])) [] = specRounds (Childs ?tree)"
      using t by blast
    have e2: "rounds (appendNodes (Childs ?tree) (Some [])) [] =
        [\<lparr>outline = microPath (map clipperPoint demoRectangle),
           holes = [microPath (map clipperPoint demoHole)]\<rparr>,
         \<lparr>outline = microPath (map clipperPoint demoIsland), holes = []\<rparr>]"
      using t by blast
    show ?thesis
      by (simp only: e1 [symmetric] e2 m)
  qed
  moreover have "specRounds [PolyNode (map clipperPoint demoIsland) []] =
      [\<lparr>outline = demoIsland, holes = []\<rparr>]"
    using t c m by simp
  ultimately show ?thesis by simp
qed

end
